theory Spec2Isabelle
  imports Main
begin

section \<open>A sequential model of \<open>hungbiu::concurrent_forward_list\<close>\<close>

text \<open>
  The list of \<^verbatim>\<open>concurrent_forward_list.hpp\<close> is a chain of heap nodes owned
  through \<^verbatim>\<open>std::shared_ptr\<close>. The model keeps an explicit store of nodes: a node's
  address is its index in the store, a \<^verbatim>\<open>shared_ptr\<close> is an optional address
  (\<open>None\<close> is the empty pointer), and \<^verbatim>\<open>std::make_shared\<close> appends a node to
  the store. Nodes are never taken out of the store: reference counting only reclaims
  a node that no pointer reaches any more, so no operation can observe the difference.

  The model runs one operation at a time. A compare-and-swap therefore fails only
  when the expected value differs from the stored one (no spurious failure, no
  interference), and a mutex is free whenever an operation starts.
\<close>

subsection \<open>Data\<close>

type_synonym addr = nat
type_synonym pointer = "addr option"

record 'a list_node =
  m_val :: 'a
  m_mtx :: bool
  m_deleted :: bool
  m_next :: pointer

text \<open>
  \<open>m_mtx\<close> is \<open>True\<close> while the node's \<^verbatim>\<open>std::mutex\<close> is held. The field
  \<open>lock_trace\<close> of the state is a history variable: the addresses of the nodes whose
  mutex has been acquired, oldest first.
\<close>

record 'a state =
  heap :: "'a list_node list"
  m_head :: pointer
  lock_trace :: "addr list"

datatype iterator = Iterator (m_node_ptr: pointer)

text \<open>
  What a call can do besides returning: throw the \<^verbatim>\<open>std::runtime_error\<close> of
  the double-delete check (the state is the one left behind once the scoped locks are
  released), or run into undefined behaviour. \<open>Dangling_pointer\<close> has no counterpart
  in the C++ program, where a shared pointer keeps its node alive; it makes the
  model total on stores that are not closed under their pointers. \<open>Lock_held\<close> is
  \<^verbatim>\<open>lock()\<close> on a mutex that is already held: the caller never proceeds.
\<close>

datatype fault = Null_dereference | Dangling_pointer | Lock_held

datatype ('s, 'r) outcome = Returned 's 'r | Thrown 's | Undefined fault

subsection \<open>\<open>list_node\<close>\<close>

text \<open>\<^verbatim>\<open>list_node(const T &val)\<close> and \<^verbatim>\<open>list_node(const T &val, const pointer &p)\<close>.\<close>

definition list_node_val :: "'a \<Rightarrow> 'a list_node" where
  "list_node_val val = \<lparr>m_val = val, m_mtx = False, m_deleted = False, m_next = None\<rparr>"

definition list_node_val_ptr :: "'a \<Rightarrow> pointer \<Rightarrow> 'a list_node" where
  "list_node_val_ptr val p = \<lparr>m_val = val, m_mtx = False, m_deleted = False, m_next = p\<rparr>"

definition is_deleted :: "'a list_node \<Rightarrow> bool" where
  "is_deleted n = m_deleted n"

text \<open>
  \<^verbatim>\<open>auto b = false; return m_deleted.compare_exchange_strong(b, true);\<close>
  The result is the returned flag and the node afterwards.
\<close>

definition mark_as_deleted :: "'a list_node \<Rightarrow> bool \<times> 'a list_node" where
  "mark_as_deleted n =
     (if m_deleted n = False then (True, n\<lparr>m_deleted := True\<rparr>) else (False, n))"

subsection \<open>Store access\<close>

definition deref :: "'a state \<Rightarrow> pointer \<Rightarrow> fault + addr" where
  "deref s p =
     (case p of
        None \<Rightarrow> Inl Null_dereference
      | Some a \<Rightarrow> if a < length (heap s) then Inr a else Inl Dangling_pointer)"

definition update_node :: "'a state \<Rightarrow> addr \<Rightarrow> ('a list_node \<Rightarrow> 'a list_node) \<Rightarrow> 'a state" where
  "update_node s a f = s\<lparr>heap := (heap s)[a := f (heap s ! a)]\<rparr>"

definition make_shared :: "'a state \<Rightarrow> 'a list_node \<Rightarrow> 'a state \<times> addr" where
  "make_shared s n = (s\<lparr>heap := heap s @ [n]\<rparr>, length (heap s))"

text \<open>
  \<^verbatim>\<open>p->lock()\<close> is \<open>deref\<close> of \<open>p\<close> followed by \<open>lock\<close> at the address found.
  It returns a \<^verbatim>\<open>unique_lock\<close> that owns the node's mutex; \<open>unlock\<close> is the
  destructor of that guard, which runs when its scope is left, by a return or a throw.
\<close>

definition lock :: "'a state \<Rightarrow> addr \<Rightarrow> fault + 'a state" where
  "lock s a =
     (if m_mtx (heap s ! a) then Inl Lock_held
      else Inr ((update_node s a (\<lambda>n. n\<lparr>m_mtx := True\<rparr>))
                  \<lparr>lock_trace := lock_trace s @ [a]\<rparr>))"

definition unlock :: "'a state \<Rightarrow> addr \<Rightarrow> 'a state" where
  "unlock s a = update_node s a (\<lambda>n. n\<lparr>m_mtx := False\<rparr>)"

text \<open>
  \<^verbatim>\<open>atomic_compare_exchange_weak(&obj, &expected, desired)\<close> on shared pointers:
  the result is the returned flag, the new \<open>obj\<close> and the new \<open>expected\<close>.
\<close>

definition atomic_compare_exchange_weak ::
  "pointer \<Rightarrow> pointer \<Rightarrow> pointer \<Rightarrow> bool \<times> pointer \<times> pointer" where
  "atomic_compare_exchange_weak obj expected desired =
     (if obj = expected then (True, desired, expected) else (False, obj, obj))"

subsection \<open>Iterators\<close>

definition is_valid :: "'a state \<Rightarrow> iterator \<Rightarrow> fault + bool" where
  "is_valid s it =
     (case m_node_ptr it of
        None \<Rightarrow> Inr False
      | Some a \<Rightarrow>
          if a < length (heap s) then Inr (\<not> is_deleted (heap s ! a))
          else Inl Dangling_pointer)"

text \<open>\<^verbatim>\<open>operator*\<close>: \<^verbatim>\<open>return m_node_ptr->m_val;\<close>\<close>

definition star :: "'a state \<Rightarrow> iterator \<Rightarrow> fault + 'a" where
  "star s it =
     (case deref s (m_node_ptr it) of
        Inl f \<Rightarrow> Inl f
      | Inr a \<Rightarrow> Inr (m_val (heap s ! a)))"

text \<open>\<^verbatim>\<open>operator++\<close>: \<^verbatim>\<open>m_node_ptr = m_node_ptr->m_next;\<close>\<close>

definition incr :: "'a state \<Rightarrow> iterator \<Rightarrow> fault + iterator" where
  "incr s it =
     (case deref s (m_node_ptr it) of
        Inl f \<Rightarrow> Inl f
      | Inr a \<Rightarrow> Inr (Iterator (m_next (heap s ! a))))"

subsection \<open>The list\<close>

text \<open>\<^verbatim>\<open>concurrent_forward_list() = default;\<close> in an empty store.\<close>

definition new_list :: "'a state" where
  "new_list = \<lparr>heap = [], m_head = None, lock_trace = []\<rparr>"

definition begin_it :: "'a state \<Rightarrow> iterator" where
  "begin_it s = Iterator (m_head s)"

definition end_it :: iterator where
  "end_it = Iterator None"

definition empty_cfl :: "'a state \<Rightarrow> bool" where
  "empty_cfl s = (m_head s = None)"

function clear_loop :: "'a state \<Rightarrow> pointer \<Rightarrow> 'a state" where
  "clear_loop s tmp =
     (case atomic_compare_exchange_weak (m_head s) tmp None of
        (ok, h, tmp') \<Rightarrow>
          if ok then s\<lparr>m_head := h\<rparr> else clear_loop (s\<lparr>m_head := h\<rparr>) tmp')"
  by pat_completeness auto
termination
  by (relation "measure (\<lambda>(s, tmp). if m_head s = tmp then 0 else 1)")
     (auto simp: atomic_compare_exchange_weak_def split: if_splits)

definition clear :: "'a state \<Rightarrow> 'a state" where
  "clear s = clear_loop s (m_head s)"

function push_front_loop :: "'a state \<Rightarrow> addr \<Rightarrow> fault + 'a state" where
  "push_front_loop s new_node =
     (if new_node < length (heap s) then
        (case atomic_compare_exchange_weak
                (m_head s) (m_next (heap s ! new_node)) (Some new_node) of
           (ok, h, e) \<Rightarrow>
             if ok then Inr (update_node (s\<lparr>m_head := h\<rparr>) new_node (\<lambda>n. n\<lparr>m_next := e\<rparr>))
             else push_front_loop
                    (update_node (s\<lparr>m_head := h\<rparr>) new_node (\<lambda>n. n\<lparr>m_next := e\<rparr>)) new_node)
      else Inl Dangling_pointer)"
  by pat_completeness auto
termination
  by (relation "measure (\<lambda>(s, a). if m_head s = m_next (heap s ! a) then 0 else 1)")
     (auto simp: atomic_compare_exchange_weak_def update_node_def split: if_splits)

definition push_front :: "'a state \<Rightarrow> 'a \<Rightarrow> ('a state, unit) outcome" where
  "push_front s val =
     (case make_shared s (list_node_val_ptr val (m_head s)) of
        (s1, new_node) \<Rightarrow>
          (case push_front_loop s1 new_node of
             Inl f \<Rightarrow> Undefined f
           | Inr s2 \<Rightarrow> Returned s2 ()))"

function pop_front_loop :: "'a state \<Rightarrow> pointer \<Rightarrow> fault + 'a state \<times> pointer" where
  "pop_front_loop s old_head =
     (case old_head of
        None \<Rightarrow> Inr (s, old_head)
      | Some a \<Rightarrow>
          if a < length (heap s) then
            (case atomic_compare_exchange_weak (m_head s) old_head (m_next (heap s ! a)) of
               (ok, h, e) \<Rightarrow>
                 if ok then Inr (s\<lparr>m_head := h\<rparr>, e)
                 else pop_front_loop (s\<lparr>m_head := h\<rparr>) e)
          else Inl Dangling_pointer)"
  by pat_completeness auto
termination
  by (relation "measure (\<lambda>(s, p). if m_head s = p then 0 else 1)")
     (auto simp: atomic_compare_exchange_weak_def split: if_splits)

definition pop_front :: "'a state \<Rightarrow> ('a state, unit) outcome" where
  "pop_front s =
     (case pop_front_loop s (m_head s) of
        Inl f \<Rightarrow> Undefined f
      | Inr (s1, old_head) \<Rightarrow>
          (case deref s1 old_head of
             Inl f \<Rightarrow> Undefined f
           | Inr a \<Rightarrow>
               (case lock s1 a of
                  Inl f \<Rightarrow> Undefined f
                | Inr s2 \<Rightarrow>
                    (case mark_as_deleted (heap s2 ! a) of
                       (ok, n) \<Rightarrow>
                         if \<not> ok then Thrown (unlock (update_node s2 a (\<lambda>_. n)) a)
                         else Returned (unlock (update_node s2 a (\<lambda>_. n)) a) ()))))"

definition insert_after :: "'a state \<Rightarrow> iterator \<Rightarrow> 'a \<Rightarrow> ('a state, bool) outcome" where
  "insert_after s pos val =
     (case make_shared s (list_node_val val) of
        (s1, new_node) \<Rightarrow>
          (case deref s1 (m_node_ptr pos) of
             Inl f \<Rightarrow> Undefined f
           | Inr p \<Rightarrow>
               (case lock s1 p of
                  Inl f \<Rightarrow> Undefined f
                | Inr s2 \<Rightarrow>
                    if is_deleted (heap s2 ! p) then Returned (unlock s2 p) False
                    else
                      let s3 = update_node s2 new_node (\<lambda>n. n\<lparr>m_next := m_next (heap s2 ! p)\<rparr>);
                          s4 = update_node s3 p (\<lambda>n. n\<lparr>m_next := Some new_node\<rparr>)
                      in Returned (unlock s4 p) True)))"

definition erase_after :: "'a state \<Rightarrow> iterator \<Rightarrow> ('a state, bool) outcome" where
  "erase_after s pos =
     (case m_node_ptr pos of
        None \<Rightarrow> Returned s False
      | Some pre \<Rightarrow>
          if \<not> pre < length (heap s) then Undefined Dangling_pointer
          else if m_next (heap s ! pre) = None then Returned s False
          else
            (case lock s pre of
               Inl f \<Rightarrow> Undefined f
             | Inr s1 \<Rightarrow>
                 if is_deleted (heap s1 ! pre) \<or> m_next (heap s1 ! pre) = None
                 then Returned (unlock s1 pre) False
                 else
                   (case deref s1 (m_next (heap s1 ! pre)) of
                      Inl f \<Rightarrow> Undefined f
                    | Inr del \<Rightarrow>
                        (case lock s1 del of
                           Inl f \<Rightarrow> Undefined f
                         | Inr s2 \<Rightarrow>
                             let s3 = update_node s2 pre (\<lambda>n. n\<lparr>m_next := m_next (heap s2 ! del)\<rparr>)
                             in (case mark_as_deleted (heap s3 ! del) of
                                   (ok, n) \<Rightarrow>
                                     if \<not> ok
                                     then Thrown (unlock (unlock (update_node s3 del (\<lambda>_. n)) del) pre)
                                     else Returned
                                            (unlock (unlock (update_node s3 del (\<lambda>_. n)) del) pre)
                                            True)))))"

subsection \<open>Sequences of calls\<close>

text \<open>
  The state a call leaves behind: the caller goes on with it after a return, and
  after a throw if it catches the exception. Undefined behaviour leaves none.
\<close>

fun after :: "('s, 'r) outcome \<Rightarrow> 's option" where
  "after (Returned s r) = Some s"
| "after (Thrown s) = Some s"
| "after (Undefined f) = None"

datatype 'a call =
    Push_front 'a
  | Pop_front
  | Insert_after iterator 'a
  | Erase_after iterator
  | Clear

fun step :: "'a state \<Rightarrow> 'a call \<Rightarrow> 'a state option" where
  "step s (Push_front val) = after (push_front s val)"
| "step s Pop_front = after (pop_front s)"
| "step s (Insert_after pos val) = after (insert_after s pos val)"
| "step s (Erase_after pos) = after (erase_after s pos)"
| "step s Clear = Some (clear s)"

fun run :: "'a state \<Rightarrow> 'a call list \<Rightarrow> 'a state option" where
  "run s [] = Some s"
| "run s (c # cs) = (case step s c of None \<Rightarrow> None | Some s' \<Rightarrow> run s' cs)"

subsection \<open>Well-formed states and chains\<close>

definition ptr_ok :: "'a state \<Rightarrow> pointer \<Rightarrow> bool" where
  "ptr_ok s p = (case p of None \<Rightarrow> True | Some a \<Rightarrow> a < length (heap s))"

text \<open>
  Between two calls of a sequential client every pointer of the program refers to a
  node of the store and no mutex is held.
\<close>

definition quiescent :: "'a state \<Rightarrow> bool" where
  "quiescent s =
     (ptr_ok s (m_head s) \<and> list_all (\<lambda>n. ptr_ok s (m_next n) \<and> \<not> m_mtx n) (heap s))"

text \<open>\<open>path s p as q\<close>: following \<open>m_next\<close> from \<open>p\<close> visits the nodes \<open>as\<close> and arrives at \<open>q\<close>.\<close>

fun path :: "'a state \<Rightarrow> pointer \<Rightarrow> addr list \<Rightarrow> pointer \<Rightarrow> bool" where
  "path s p [] q = (p = q)"
| "path s p (a # as) q =
     (p = Some a \<and> a < length (heap s) \<and> path s (m_next (heap s ! a)) as q)"

definition node_vals :: "'a state \<Rightarrow> addr list \<Rightarrow> 'a list" where
  "node_vals s as = map (\<lambda>a. m_val (heap s ! a)) as"

definition live :: "'a state \<Rightarrow> addr list \<Rightarrow> bool" where
  "live s as = list_all (\<lambda>a. \<not> m_deleted (heap s ! a)) as"

text \<open>
  Every node's chain of successors ends: no node is reached from itself.
\<close>

definition acyclic_heap :: "'a state \<Rightarrow> bool" where
  "acyclic_heap s = (\<forall>a<length (heap s). \<exists>as. path s (Some a) as None)"

text \<open>The states the list is in between two calls of a sequential client.\<close>

definition well_formed :: "'a state \<Rightarrow> bool" where
  "well_formed s = (quiescent s \<and> acyclic_heap s)"

text \<open>
  A client can only hold iterators to nodes that exist: the position passed to a call
  is the end or refers to a node of the store.
\<close>

fun call_ok :: "'a state \<Rightarrow> 'a call \<Rightarrow> bool" where
  "call_ok s (Insert_after pos val) = ptr_ok s (m_node_ptr pos)"
| "call_ok s (Erase_after pos) = ptr_ok s (m_node_ptr pos)"
| "call_ok s c = True"

text \<open>The states reached from a new list by such calls.\<close>

inductive reachable :: "'a state \<Rightarrow> bool" where
  start: "reachable new_list"
| call: "reachable s \<Longrightarrow> call_ok s c \<Longrightarrow> step s c = Some s' \<Longrightarrow> reachable s'"

text \<open>The nodes of the list's chain are not deleted.\<close>

definition chain_live :: "'a state \<Rightarrow> bool" where
  "chain_live s = (\<forall>as. path s (m_head s) as None \<longrightarrow> (\<forall>a\<in>set as. \<not> m_deleted (heap s ! a)))"

text \<open>
  From a node that is not deleted and not in the list's chain, no node of the list's
  chain is reached.
\<close>

definition orphans_apart :: "'a state \<Rightarrow> bool" where
  "orphans_apart s =
     (\<forall>as q qs. path s (m_head s) as None \<and> path s (Some q) qs None \<and>
        \<not> m_deleted (heap s ! q) \<and> q \<notin> set as \<longrightarrow> set qs \<inter> set as = {})"

text \<open>The invariant of the list under sequential use.\<close>

definition sound :: "'a state \<Rightarrow> bool" where
  "sound s = (well_formed s \<and> chain_live s \<and> orphans_apart s)"

subsection \<open>The loops of the test program\<close>

text \<open>
  From \<^verbatim>\<open>concurrent_forward_list_test.cpp\<close>. A traversal of a cyclic chain does not
  end, so the traversals are partial functions; the values are C++ \<^verbatim>\<open>int\<close>s, far
  from overflow at these sizes.

  \<^verbatim>\<open>for (auto i = 1; i <= Max; ++i) cflist.push_front(i);\<close>
\<close>

function push_range :: "int state \<Rightarrow> int \<Rightarrow> int \<Rightarrow> (int state, unit) outcome" where
  "push_range s i mx =
     (if i \<le> mx then
        (case push_front s i of
           Returned s' _ \<Rightarrow> push_range s' (i + 1) mx
         | Thrown s' \<Rightarrow> Thrown s'
         | Undefined f \<Rightarrow> Undefined f)
      else Returned s ())"
  by pat_completeness auto
termination
  by (relation "measure (\<lambda>(s, i, mx). nat (mx + 1 - i))") auto

text \<open>\<^verbatim>\<open>std::accumulate(first, last, init)\<close>\<close>

partial_function (option) accumulate ::
  "int state \<Rightarrow> iterator \<Rightarrow> iterator \<Rightarrow> int \<Rightarrow> (fault + int) option" where
  "accumulate s first last_it init =
     (if first = last_it then Some (Inr init)
      else
        (case star s first of
           Inl f \<Rightarrow> Some (Inl f)
         | Inr v \<Rightarrow>
             (case incr s first of
                Inl f \<Rightarrow> Some (Inl f)
              | Inr first' \<Rightarrow> accumulate s first' last_it (init + v))))"

text \<open>\<^verbatim>\<open>for (auto i = lst.cbegin(); i != lst.cend(); ++i, ++sz) ;\<close>\<close>

partial_function (option) list_size_loop ::
  "'a state \<Rightarrow> iterator \<Rightarrow> nat \<Rightarrow> (fault + nat) option" where
  "list_size_loop s i sz =
     (if i = end_it then Some (Inr sz)
      else
        (case incr s i of
           Inl f \<Rightarrow> Some (Inl f)
         | Inr i' \<Rightarrow> list_size_loop s i' (sz + 1)))"

definition list_size :: "'a state \<Rightarrow> (fault + nat) option" where
  "list_size s = list_size_loop s (begin_it s) 0"

text \<open>
  \<^verbatim>\<open>for (auto it = cflist.cbegin(); it != cflist.cend(); ++it) assert(it.is_valid());\<close>
  The result is \<open>False\<close> when an assertion fails.
\<close>

partial_function (option) valid_loop ::
  "'a state \<Rightarrow> iterator \<Rightarrow> (fault + bool) option" where
  "valid_loop s it =
     (if it = end_it then Some (Inr True)
      else
        (case is_valid s it of
           Inl f \<Rightarrow> Some (Inl f)
         | Inr b \<Rightarrow>
             if \<not> b then Some (Inr False)
             else
               (case incr s it of
                  Inl f \<Rightarrow> Some (Inl f)
                | Inr it' \<Rightarrow> valid_loop s it')))"

subsection \<open>Auxiliary notions\<close>

text \<open>\<^verbatim>\<open>explicit operator bool() const noexcept { return is_valid(); }\<close>\<close>

definition operator_bool :: "'a state \<Rightarrow> iterator \<Rightarrow> fault + bool" where
  "operator_bool s it = is_valid s it"

text \<open>The store only grows, and a node deleted in \<open>s\<close> is deleted in \<open>s'\<close>.\<close>

definition deleted_kept :: "'a state \<Rightarrow> 'a state \<Rightarrow> bool" where
  "deleted_kept s s' =
     (length (heap s) \<le> length (heap s') \<and>
      (\<forall>a<length (heap s). m_deleted (heap s ! a) \<longrightarrow> m_deleted (heap s' ! a)))"

declare accumulate.simps [code] list_size_loop.simps [code] valid_loop.simps [code]

section \<open>Properties of the model\<close>

subsection \<open>What each operation computes\<close>

lemma push_front_eq:
  "push_front s v =
     Returned (s\<lparr>heap := heap s @ [list_node_val_ptr v (m_head s)],
                 m_head := Some (length (heap s))\<rparr>) ()"
  by (simp add: push_front_def make_shared_def atomic_compare_exchange_weak_def
        update_node_def list_node_val_ptr_def)

lemma clear_eq: "clear s = s\<lparr>m_head := None\<rparr>"
  by (simp add: clear_def atomic_compare_exchange_weak_def)

lemma mtx_reset:
  fixes n :: "'a list_node"
  assumes "\<not> m_mtx n"
  shows "n\<lparr>m_mtx := False\<rparr> = n"
    and "n\<lparr>m_deleted := b, m_mtx := False\<rparr> = n\<lparr>m_deleted := b\<rparr>"
    and "n\<lparr>m_next := q, m_mtx := False\<rparr> = n\<lparr>m_next := q\<rparr>"
  using assms by simp_all

lemma pop_front_loop_head:
  "m_head s = p \<Longrightarrow> pop_front_loop s p =
     (case p of
        None \<Rightarrow> Inr (s, None)
      | Some a \<Rightarrow>
          if a < length (heap s) then Inr (s\<lparr>m_head := m_next (heap s ! a)\<rparr>, p)
          else Inl Dangling_pointer)"
  by (simp add: atomic_compare_exchange_weak_def split: option.splits)

lemma pop_front_empty: "m_head s = None \<Longrightarrow> pop_front s = Undefined Null_dereference"
  by (simp add: pop_front_def deref_def)

lemma pop_front_eq:
  assumes "m_head s = Some a" "a < length (heap s)" "\<not> m_mtx (heap s ! a)"
  shows "pop_front s =
     (if m_deleted (heap s ! a)
      then Thrown (s\<lparr>m_head := m_next (heap s ! a), lock_trace := lock_trace s @ [a]\<rparr>)
      else Returned (s\<lparr>heap := (heap s)[a := (heap s ! a)\<lparr>m_deleted := True\<rparr>],
                       m_head := m_next (heap s ! a),
                       lock_trace := lock_trace s @ [a]\<rparr>) ())"
  using assms
  by (simp add: pop_front_def deref_def atomic_compare_exchange_weak_def lock_def unlock_def
        update_node_def mark_as_deleted_def mtx_reset)

lemma pop_front_state:
  assumes "m_head s = Some a" "a < length (heap s)" "\<not> m_mtx (heap s ! a)"
  shows "after (pop_front s) =
           Some (s\<lparr>heap := (heap s)[a := (heap s ! a)\<lparr>m_deleted := True\<rparr>],
                   m_head := m_next (heap s ! a), lock_trace := lock_trace s @ [a]\<rparr>)"
proof (cases "m_deleted (heap s ! a)")
  case True
  then have same: "(heap s ! a)\<lparr>m_deleted := True\<rparr> = heap s ! a" by simp
  from True show ?thesis by (simp add: pop_front_eq[OF assms] same)
next
  case False
  then show ?thesis by (simp add: pop_front_eq[OF assms])
qed

lemma insert_after_eq:
  assumes "p < length (heap s)" "\<not> m_mtx (heap s ! p)"
  shows "insert_after s (Iterator (Some p)) v =
     (if m_deleted (heap s ! p)
      then Returned (s\<lparr>heap := heap s @ [list_node_val v],
                       lock_trace := lock_trace s @ [p]\<rparr>) False
      else Returned (s\<lparr>heap := (heap s)[p := (heap s ! p)\<lparr>m_next := Some (length (heap s))\<rparr>]
                                 @ [(list_node_val v)\<lparr>m_next := m_next (heap s ! p)\<rparr>],
                       lock_trace := lock_trace s @ [p]\<rparr>) True)"
  using assms
  by (simp add: insert_after_def make_shared_def deref_def lock_def unlock_def
        update_node_def is_deleted_def nth_append list_update_append Let_def mtx_reset)

lemma erase_after_eq:
  assumes "p < length (heap s)" "\<not> m_mtx (heap s ! p)"
    and "m_next (heap s ! p) = Some d" "d < length (heap s)" "\<not> m_mtx (heap s ! d)" "d \<noteq> p"
  shows "erase_after s (Iterator (Some p)) =
     (if m_deleted (heap s ! p)
      then Returned (s\<lparr>lock_trace := lock_trace s @ [p]\<rparr>) False
      else if m_deleted (heap s ! d)
      then Thrown (s\<lparr>heap := (heap s)[p := (heap s ! p)\<lparr>m_next := m_next (heap s ! d)\<rparr>],
                     lock_trace := lock_trace s @ [p, d]\<rparr>)
      else Returned (s\<lparr>heap := (heap s)[p := (heap s ! p)\<lparr>m_next := m_next (heap s ! d)\<rparr>,
                                          d := (heap s ! d)\<lparr>m_deleted := True\<rparr>],
                       lock_trace := lock_trace s @ [p, d]\<rparr>) True)"
  using assms
  by (simp add: erase_after_def deref_def lock_def unlock_def update_node_def is_deleted_def
        mark_as_deleted_def Let_def list_update_swap mtx_reset)

lemma erase_after_cases:
  "erase_after s (Iterator (Some p)) =
     (if \<not> p < length (heap s) then Undefined Dangling_pointer
      else case m_next (heap s ! p) of
        None \<Rightarrow> Returned s False
      | Some d \<Rightarrow>
          if m_mtx (heap s ! p) then Undefined Lock_held
          else if m_deleted (heap s ! p)
            then Returned (s\<lparr>lock_trace := lock_trace s @ [p]\<rparr>) False
          else if \<not> d < length (heap s) then Undefined Dangling_pointer
          else if d = p \<or> m_mtx (heap s ! d) then Undefined Lock_held
          else if m_deleted (heap s ! d)
            then Thrown (s\<lparr>heap := (heap s)[p := (heap s ! p)\<lparr>m_next := m_next (heap s ! d)\<rparr>],
                           lock_trace := lock_trace s @ [p, d]\<rparr>)
          else Returned (s\<lparr>heap := (heap s)[p := (heap s ! p)\<lparr>m_next := m_next (heap s ! d)\<rparr>,
                                              d := (heap s ! d)\<lparr>m_deleted := True\<rparr>],
                           lock_trace := lock_trace s @ [p, d]\<rparr>) True)"
proof (cases "p < length (heap s)")
  case False
  then show ?thesis by (simp add: erase_after_def)
next
  case p: True
  show ?thesis
  proof (cases "m_next (heap s ! p)")
    case None
    with p show ?thesis by (simp add: erase_after_def)
  next
    case (Some d)
    show ?thesis
    proof (cases "m_mtx (heap s ! p)")
      case True
      with p Some show ?thesis by (simp add: erase_after_def lock_def)
    next
      case mp: False
      show ?thesis
      proof (cases "m_deleted (heap s ! p)")
        case True
        with p Some mp show ?thesis
          by (simp add: erase_after_def lock_def unlock_def update_node_def is_deleted_def
                mtx_reset)
      next
        case dp: False
        show ?thesis
        proof (cases "d < length (heap s)")
          case False
          with p Some mp dp show ?thesis
            by (simp add: erase_after_def lock_def update_node_def is_deleted_def deref_def)
        next
          case d: True
          show ?thesis
          proof (cases "d = p \<or> m_mtx (heap s ! d)")
            case True
            with p Some mp dp d show ?thesis
              by (auto simp: erase_after_def lock_def update_node_def is_deleted_def deref_def
                    nth_list_update)
          next
            case False
            with p Some mp dp d erase_after_eq[of p s d] show ?thesis
              by simp
          qed
        qed
      qed
    qed
  qed
qed

lemma erase_after_TrueD:
  assumes "erase_after s pos = Returned s' True"
  shows "\<exists>p d. m_node_ptr pos = Some p \<and> p < length (heap s) \<and> m_next (heap s ! p) = Some d \<and>
           d < length (heap s) \<and> d \<noteq> p \<and> \<not> m_deleted (heap s ! p) \<and> \<not> m_deleted (heap s ! d) \<and>
           s' = s\<lparr>heap := (heap s)[p := (heap s ! p)\<lparr>m_next := m_next (heap s ! d)\<rparr>,
                                   d := (heap s ! d)\<lparr>m_deleted := True\<rparr>],
                  lock_trace := lock_trace s @ [p, d]\<rparr>"
proof -
  obtain q where pos: "pos = Iterator q" by (cases pos)
  with assms obtain p where q: "q = Some p"
    by (cases q) (simp_all add: erase_after_def)
  from assms show ?thesis
    unfolding pos q erase_after_cases
    by (simp split: if_splits option.splits)
qed

subsection \<open>Chains\<close>

lemma path_append: "path s p (as @ bs) q = (\<exists>r. path s p as r \<and> path s r bs q)"
  by (induction as arbitrary: p) auto

lemma path_frame:
  assumes "path s p as q" "length (heap s) \<le> length (heap s')"
    and "\<forall>a\<in>set as. m_next (heap s' ! a) = m_next (heap s ! a)"
  shows "path s' p as q"
  using assms by (induction as arbitrary: p) auto

lemma path_unique: "path s p as None \<Longrightarrow> path s p bs None \<Longrightarrow> as = bs"
proof (induction as arbitrary: p bs)
  case Nil
  then show ?case by (cases bs) auto
next
  case (Cons a as)
  then show ?case by (cases bs) auto
qed

lemma path_head_fresh:
  assumes "path s (m_next (heap s ! a)) as None"
  shows "a \<notin> set as"
proof
  assume "a \<in> set as"
  then obtain xs ys where split: "as = xs @ a # ys"
    by (auto simp: in_set_conv_decomp)
  with assms have "path s (m_next (heap s ! a)) ys None"
    by (auto simp: path_append)
  with assms have "ys = as" by (rule path_unique[rotated])
  with split show False by simp
qed

lemma path_distinct: "path s p as None \<Longrightarrow> distinct as"
  by (induction as arbitrary: p) (auto dest: path_head_fresh)

lemma path_in_range: "path s p as q \<Longrightarrow> a \<in> set as \<Longrightarrow> a < length (heap s)"
  by (induction as arbitrary: p) auto

lemma path_erase:
  assumes "path s r (xs @ p # d # ys) None"
    and "heap s' = (heap s)[p := (heap s ! p)\<lparr>m_next := m_next (heap s ! d)\<rparr>,
                            d := (heap s ! d)\<lparr>m_deleted := True\<rparr>]"
  shows "path s' r (xs @ p # ys) None"
proof -
  from assms(1) have pre: "path s r xs (Some p)" and p: "p < length (heap s)"
    and nx: "m_next (heap s ! p) = Some d" and d: "d < length (heap s)"
    and post: "path s (m_next (heap s ! d)) ys None"
    by (auto simp: path_append)
  have dist: "distinct (xs @ p # d # ys)"
    using assms(1) by (rule path_distinct)
  have same: "m_next (heap s' ! a) = m_next (heap s ! a)" if "a \<noteq> p" for a
    using that by (cases "a = d") (simp_all add: assms(2) d)
  have len: "length (heap s) \<le> length (heap s')" by (simp add: assms(2))
  have "path s' r xs (Some p)"
    using pre len
  proof (rule path_frame)
    show "\<forall>a\<in>set xs. m_next (heap s' ! a) = m_next (heap s ! a)"
    proof
      fix a assume "a \<in> set xs"
      with dist have "a \<noteq> p" by auto
      then show "m_next (heap s' ! a) = m_next (heap s ! a)" by (rule same)
    qed
  qed
  moreover have "path s' (m_next (heap s ! d)) ys None"
    using post len
  proof (rule path_frame)
    show "\<forall>a\<in>set ys. m_next (heap s' ! a) = m_next (heap s ! a)"
    proof
      fix a assume "a \<in> set ys"
      with dist have "a \<noteq> p" by auto
      then show "m_next (heap s' ! a) = m_next (heap s ! a)" by (rule same)
    qed
  qed
  moreover have "m_next (heap s' ! p) = m_next (heap s ! d)"
    using dist p by (simp add: assms(2))
  moreover have "p < length (heap s')" using p by (simp add: assms(2))
  ultimately show ?thesis by (auto simp: path_append)
qed

lemma path_insert:
  assumes "path s r (xs @ p # ys) None"
    and "heap s' = (heap s)[p := (heap s ! p)\<lparr>m_next := Some (length (heap s))\<rparr>] @ [n]"
    and "m_next n = m_next (heap s ! p)"
  shows "path s' r (xs @ p # length (heap s) # ys) None"
proof -
  from assms(1) have pre: "path s r xs (Some p)" and p: "p < length (heap s)"
    and post: "path s (m_next (heap s ! p)) ys None"
    by (auto simp: path_append)
  have dist: "distinct (xs @ p # ys)"
    using assms(1) by (rule path_distinct)
  have rng: "\<forall>a\<in>set (xs @ p # ys). a < length (heap s)"
    using path_in_range[OF assms(1)] by blast
  have same: "m_next (heap s' ! a) = m_next (heap s ! a)" if "a \<noteq> p" "a < length (heap s)" for a
    using that by (simp add: assms(2) nth_append)
  have len: "length (heap s) \<le> length (heap s')" by (simp add: assms(2))
  have "path s' r xs (Some p)"
    using pre len
  proof (rule path_frame)
    show "\<forall>a\<in>set xs. m_next (heap s' ! a) = m_next (heap s ! a)"
    proof
      fix a assume "a \<in> set xs"
      with dist rng have "a \<noteq> p" "a < length (heap s)" by auto
      then show "m_next (heap s' ! a) = m_next (heap s ! a)" by (rule same)
    qed
  qed
  moreover have "path s' (m_next (heap s ! p)) ys None"
    using post len
  proof (rule path_frame)
    show "\<forall>a\<in>set ys. m_next (heap s' ! a) = m_next (heap s ! a)"
    proof
      fix a assume "a \<in> set ys"
      with dist rng have "a \<noteq> p" "a < length (heap s)" by auto
      then show "m_next (heap s' ! a) = m_next (heap s ! a)" by (rule same)
    qed
  qed
  moreover have "m_next (heap s' ! p) = Some (length (heap s))"
    using p by (simp add: assms(2) nth_append)
  moreover have "m_next (heap s' ! length (heap s)) = m_next (heap s ! p)"
    by (simp add: assms(2) assms(3) nth_append)
  moreover have "p < length (heap s')" "length (heap s) < length (heap s')"
    using p by (simp_all add: assms(2))
  ultimately show ?thesis by (auto simp: path_append)
qed

subsection \<open>Traversals\<close>

lemma accumulate_path:
  "path s p as None \<Longrightarrow>
     accumulate s (Iterator p) end_it acc = Some (Inr (acc + sum_list (node_vals s as)))"
proof (induction as arbitrary: p acc)
  case Nil
  then show ?case by (subst accumulate.simps) (simp add: end_it_def node_vals_def)
next
  case (Cons a as)
  then show ?case
    by (subst accumulate.simps) (simp add: end_it_def node_vals_def star_def incr_def deref_def)
qed

lemma list_size_loop_path:
  "path s p as None \<Longrightarrow> list_size_loop s (Iterator p) n = Some (Inr (n + length as))"
proof (induction as arbitrary: p n)
  case Nil
  then show ?case by (subst list_size_loop.simps) (simp add: end_it_def)
next
  case (Cons a as)
  then show ?case
    by (subst list_size_loop.simps) (simp add: end_it_def incr_def deref_def)
qed

lemma valid_loop_path:
  "path s p as None \<Longrightarrow> valid_loop s (Iterator p) = Some (Inr (live s as))"
proof (induction as arbitrary: p)
  case Nil
  then show ?case by (subst valid_loop.simps) (simp add: end_it_def live_def)
next
  case (Cons a as)
  then show ?case
    by (subst valid_loop.simps)
       (simp add: end_it_def live_def incr_def deref_def is_valid_def is_deleted_def)
qed

subsection \<open>Quiescent states\<close>

lemma quiescent_nth:
  "quiescent s \<Longrightarrow> a < length (heap s) \<Longrightarrow> \<not> m_mtx (heap s ! a) \<and> ptr_ok s (m_next (heap s ! a))"
  by (simp add: quiescent_def list_all_length)

lemma quiescent_iff:
  "quiescent s \<longleftrightarrow>
     ptr_ok s (m_head s) \<and>
     (\<forall>a<length (heap s). ptr_ok s (m_next (heap s ! a)) \<and> \<not> m_mtx (heap s ! a))"
  by (auto simp: quiescent_def list_all_length)

lemma quiescentI:
  assumes "ptr_ok s (m_head s)"
    and "\<And>b. b < length (heap s) \<Longrightarrow> ptr_ok s (m_next (heap s ! b))"
    and "\<And>b. b < length (heap s) \<Longrightarrow> \<not> m_mtx (heap s ! b)"
  shows "quiescent s"
  using assms by (simp add: quiescent_iff)

lemma quiescentD:
  assumes "quiescent s"
  shows "ptr_ok s (m_head s)"
    and "b < length (heap s) \<Longrightarrow> ptr_ok s (m_next (heap s ! b))"
    and "b < length (heap s) \<Longrightarrow> \<not> m_mtx (heap s ! b)"
  using assms by (simp_all add: quiescent_iff)

lemma ptr_ok_mono: "ptr_ok s p \<Longrightarrow> length (heap s) \<le> length (heap s') \<Longrightarrow> ptr_ok s' p"
  by (auto simp: ptr_ok_def split: option.splits)

lemma quiescent_push_front:
  assumes "quiescent s"
  shows "quiescent (s\<lparr>heap := heap s @ [list_node_val_ptr v (m_head s)],
                       m_head := Some (length (heap s))\<rparr>)"
  using assms
  by (auto simp: quiescent_def ptr_ok_def list_node_val_ptr_def list_all_iff
           split: option.splits)

subsection \<open>The pushes of the test program\<close>

lemma push_front_chain:
  assumes "path s (m_head s) as None"
  shows "path (s\<lparr>heap := heap s @ [list_node_val_ptr v (m_head s)],
                 m_head := Some (length (heap s))\<rparr>) (Some (length (heap s)))
              (length (heap s) # as) None"
proof -
  let ?s' = "s\<lparr>heap := heap s @ [list_node_val_ptr v (m_head s)],
                 m_head := Some (length (heap s))\<rparr>"
  have "path ?s' (m_head s) as None"
    using assms
  proof (rule path_frame)
    show "length (heap s) \<le> length (heap ?s')" by simp
    show "\<forall>a\<in>set as. m_next (heap ?s' ! a) = m_next (heap s ! a)"
      using path_in_range[OF assms] by (simp add: nth_append)
  qed
  then show ?thesis by (simp add: list_node_val_ptr_def)
qed

lemma push_range_chain:
  assumes "path s (m_head s) as None" "live s as" "quiescent s"
  shows "\<exists>s' bs. push_range s i mx = Returned s' () \<and> path s' (m_head s') (bs @ as) None \<and>
           node_vals s' (bs @ as) = rev [i..mx] @ node_vals s as \<and> live s' (bs @ as) \<and>
           quiescent s'"
  using assms
proof (induction s i mx arbitrary: as rule: push_range.induct)
  case (1 s i mx)
  show ?case
  proof (cases "i \<le> mx")
    case False
    with "1.prems" show ?thesis by (intro exI[of _ s] exI[of _ "[]"]) simp
  next
    case True
    let ?n = "length (heap s)"
    let ?s1 = "s\<lparr>heap := heap s @ [list_node_val_ptr i (m_head s)], m_head := Some ?n\<rparr>"
    have in_range: "\<forall>a\<in>set as. a < ?n"
      using path_in_range[OF "1.prems"(1)] by blast
    have p1: "path ?s1 (m_head ?s1) (?n # as) None"
      using push_front_chain[OF "1.prems"(1)] by simp
    have v1: "node_vals ?s1 (?n # as) = i # node_vals s as"
      using in_range by (simp add: node_vals_def nth_append list_node_val_ptr_def)
    have l1: "live ?s1 (?n # as)"
      using in_range "1.prems"(2)
      by (simp add: live_def nth_append list_node_val_ptr_def list_all_iff)
    have q1: "quiescent ?s1"
      using "1.prems"(3) by (rule quiescent_push_front)
    from "1.IH"[OF True push_front_eq p1 l1 q1]
    obtain s' bs where
      r: "push_range ?s1 (i + 1) mx = Returned s' ()"
      and p: "path s' (m_head s') (bs @ ?n # as) None"
      and v: "node_vals s' (bs @ ?n # as) = rev [i + 1..mx] @ node_vals ?s1 (?n # as)"
      and l: "live s' (bs @ ?n # as)" and q: "quiescent s'"
      by blast
    have "push_range s i mx = Returned s' ()"
      using True r by (simp add: push_front_eq)
    moreover have "node_vals s' ((bs @ [?n]) @ as) = rev [i..mx] @ node_vals s as"
      using v v1 True by (simp add: upto_rec1[of i mx])
    ultimately show ?thesis
      using p l q by (intro exI[of _ s'] exI[of _ "bs @ [?n]"]) simp
  qed
qed

lemma push_range_test:
  "\<exists>t bs. push_range new_list 1 100 = Returned t () \<and> path t (m_head t) bs None \<and>
          node_vals t bs = rev [1..100] \<and> live t bs \<and> quiescent t"
proof -
  have "path (new_list :: int state) (m_head new_list) [] None" "live (new_list :: int state) []"
    "quiescent (new_list :: int state)"
    by (simp_all add: new_list_def live_def quiescent_def ptr_ok_def)
  from push_range_chain[OF this, of 1 100] show ?thesis
    by (simp add: node_vals_def)
qed

subsection \<open>Deleted nodes stay deleted\<close>

lemma deleted_kept_pop_front:
  assumes "after (pop_front s) = Some s'"
  shows "deleted_kept s s'"
proof -
  obtain a where a: "m_head s = Some a" "a < length (heap s)"
    and s': "after (case lock (s\<lparr>m_head := m_next (heap s ! a)\<rparr>) a of
                Inl f \<Rightarrow> Undefined f
              | Inr s2 \<Rightarrow>
                  (case mark_as_deleted (heap s2 ! a) of
                     (ok, n) \<Rightarrow>
                       if \<not> ok then Thrown (unlock (update_node s2 a (\<lambda>_. n)) a)
                       else Returned (unlock (update_node s2 a (\<lambda>_. n)) a) ())) = Some s'"
    using assms
    by (auto simp: pop_front_def pop_front_loop_head[OF refl] deref_def
          simp del: pop_front_loop.simps split: option.splits if_splits)
  from s' a(2) show ?thesis
    by (auto simp: lock_def unlock_def update_node_def mark_as_deleted_def deleted_kept_def
          nth_list_update split: if_splits)
qed

lemma deleted_kept_insert_after: "after (insert_after s pos v) = Some s' \<Longrightarrow> deleted_kept s s'"
  by (auto simp: insert_after_def make_shared_def deref_def lock_def unlock_def update_node_def
        is_deleted_def deleted_kept_def nth_list_update nth_append Let_def
        split: option.splits if_splits sum.splits)

lemma deleted_kept_erase_after: "after (erase_after s pos) = Some s' \<Longrightarrow> deleted_kept s s'"
  by (auto simp: erase_after_def deref_def lock_def unlock_def update_node_def
        is_deleted_def mark_as_deleted_def deleted_kept_def nth_list_update Let_def
        split: option.splits if_splits sum.splits)

lemma deleted_kept_step: "step s c = Some s' \<Longrightarrow> deleted_kept s s'"
proof (cases c)
  case (Push_front v)
  then show "step s c = Some s' \<Longrightarrow> deleted_kept s s'"
    by (auto simp: push_front_eq deleted_kept_def nth_append)
next
  case Clear
  then show "step s c = Some s' \<Longrightarrow> deleted_kept s s'"
    by (auto simp: clear_eq deleted_kept_def)
qed (auto dest: deleted_kept_pop_front deleted_kept_insert_after deleted_kept_erase_after)

lemma deleted_kept_run: "run s cs = Some s' \<Longrightarrow> deleted_kept s s'"
proof (induction cs arbitrary: s)
  case Nil
  then show ?case by (simp add: deleted_kept_def)
next
  case (Cons c cs)
  then obtain s1 where "step s c = Some s1" "run s1 cs = Some s'"
    by (auto split: option.splits)
  then have "deleted_kept s s1" "deleted_kept s1 s'"
    using Cons.IH deleted_kept_step by blast+
  then show ?case by (auto simp: deleted_kept_def)
qed

subsection \<open>Reachable states are well formed\<close>

lemma acyclic_ptr:
  assumes "acyclic_heap s" "ptr_ok s p"
  shows "\<exists>as. path s p as None"
proof (cases p)
  case None
  then have "path s p [] None" by simp
  then show ?thesis ..
next
  case (Some a)
  with assms show ?thesis by (simp add: acyclic_heap_def ptr_ok_def)
qed

lemma acyclic_frame:
  assumes "acyclic_heap s" "length (heap s') = length (heap s)"
    and "\<forall>a<length (heap s). m_next (heap s' ! a) = m_next (heap s ! a)"
  shows "acyclic_heap s'"
  unfolding acyclic_heap_def
proof (intro allI impI)
  fix a assume "a < length (heap s')"
  with assms obtain as where p: "path s (Some a) as None"
    by (auto simp: acyclic_heap_def)
  have "path s' (Some a) as None"
    using p
  proof (rule path_frame)
    show "length (heap s) \<le> length (heap s')" using assms(2) by simp
    show "\<forall>a\<in>set as. m_next (heap s' ! a) = m_next (heap s ! a)"
      using path_in_range[OF p] assms(3) by blast
  qed
  then show "\<exists>as. path s' (Some a) as None" ..
qed

lemma acyclic_append:
  assumes "acyclic_heap s" "heap s' = heap s @ [n]" "ptr_ok s (m_next n)"
  shows "acyclic_heap s'"
  unfolding acyclic_heap_def
proof (intro allI impI)
  fix a assume a: "a < length (heap s')"
  have old: "path s' r as None" if "path s r as None" for r as
    using that
  proof (rule path_frame)
    show "length (heap s) \<le> length (heap s')" by (simp add: assms(2))
    show "\<forall>a\<in>set as. m_next (heap s' ! a) = m_next (heap s ! a)"
      using path_in_range[OF that] by (simp add: assms(2) nth_append)
  qed
  show "\<exists>as. path s' (Some a) as None"
  proof (cases "a < length (heap s)")
    case True
    with assms(1) obtain as where "path s (Some a) as None"
      by (auto simp: acyclic_heap_def)
    then have "path s' (Some a) as None" by (rule old)
    then show ?thesis ..
  next
    case False
    with a have an: "a = length (heap s)" by (simp add: assms(2))
    from acyclic_ptr[OF assms(1,3)] obtain as where "path s (m_next n) as None" ..
    then have "path s' (m_next n) as None" by (rule old)
    then have "path s' (Some a) (a # as) None"
      using a by (simp add: an assms(2))
    then show ?thesis ..
  qed
qed

lemma acyclic_insert:
  assumes "acyclic_heap s" "p < length (heap s)"
    and "heap s' = (heap s)[p := (heap s ! p)\<lparr>m_next := Some (length (heap s))\<rparr>] @ [n]"
    and "m_next n = m_next (heap s ! p)"
  shows "acyclic_heap s'"
  unfolding acyclic_heap_def
proof (intro allI impI)
  fix a assume a: "a < length (heap s')"
  have old: "\<exists>bs. path s' r bs None" if "path s r as None" for r as
  proof (cases "p \<in> set as")
    case True
    then obtain xs ys where "as = xs @ p # ys" by (auto simp: in_set_conv_decomp)
    with that have "path s' r (xs @ p # length (heap s) # ys) None"
      using path_insert[OF _ assms(3,4)] by blast
    then show ?thesis ..
  next
    case False
    have "path s' r as None"
      using that
    proof (rule path_frame)
      show "length (heap s) \<le> length (heap s')" by (simp add: assms(3))
      show "\<forall>a\<in>set as. m_next (heap s' ! a) = m_next (heap s ! a)"
      proof
        fix b assume "b \<in> set as"
        with False path_in_range[OF that] have "b \<noteq> p" "b < length (heap s)" by auto
        then show "m_next (heap s' ! b) = m_next (heap s ! b)"
          by (simp add: assms(3) nth_append)
      qed
    qed
    then show ?thesis ..
  qed
  from assms(1,2) obtain ps where ps: "path s (Some p) ps None"
    by (auto simp: acyclic_heap_def)
  show "\<exists>as. path s' (Some a) as None"
  proof (cases "a < length (heap s)")
    case True
    with assms(1) obtain as where "path s (Some a) as None"
      by (auto simp: acyclic_heap_def)
    then show ?thesis by (rule old)
  next
    case False
    with a have an: "a = length (heap s)" by (simp add: assms(3))
    from ps obtain ys where "ps = p # ys" by (cases ps) auto
    with ps have "path s (Some p) ([] @ p # ys) None" by simp
    then have "path s' (Some p) ([] @ p # length (heap s) # ys) None"
      by (rule path_insert[OF _ assms(3,4)])
    then have "path s' (Some a) (a # ys) None"
      using assms(2) by (simp add: an assms(3) nth_append)
    then show ?thesis ..
  qed
qed

lemma acyclic_succ_neq:
  assumes "acyclic_heap s" "p < length (heap s)"
  shows "m_next (heap s ! p) \<noteq> Some p"
proof
  assume self: "m_next (heap s ! p) = Some p"
  from assms obtain as where as: "path s (Some p) as None"
    by (auto simp: acyclic_heap_def)
  then obtain bs where "as = p # bs" by (cases as) auto
  with as self have "path s (m_next (heap s ! p)) bs None" "p \<in> set bs"
    by (auto, cases bs, auto)
  then show False using path_head_fresh by blast
qed

lemma acyclic_erase:
  assumes "acyclic_heap s" "p < length (heap s)" "m_next (heap s ! p) = Some d"
    and "heap s' = (heap s)[p := (heap s ! p)\<lparr>m_next := m_next (heap s ! d)\<rparr>,
                            d := (heap s ! d)\<lparr>m_deleted := True\<rparr>]"
  shows "acyclic_heap s'"
  unfolding acyclic_heap_def
proof (intro allI impI)
  fix a assume "a < length (heap s')"
  then have "a < length (heap s)" by (simp add: assms(4))
  with assms(1) obtain as where as: "path s (Some a) as None"
    by (auto simp: acyclic_heap_def)
  show "\<exists>as. path s' (Some a) as None"
  proof (cases "p \<in> set as")
    case True
    then obtain xs ys where split: "as = xs @ p # ys" by (auto simp: in_set_conv_decomp)
    with as assms(3) obtain zs where "ys = d # zs"
      by (cases ys) (auto simp: path_append)
    with as split have "path s' (Some a) (xs @ p # zs) None"
      using path_erase[OF _ assms(4)] by blast
    then show ?thesis ..
  next
    case False
    have "path s' (Some a) as None"
      using as
    proof (rule path_frame)
      show "length (heap s) \<le> length (heap s')" by (simp add: assms(4))
      show "\<forall>a\<in>set as. m_next (heap s' ! a) = m_next (heap s ! a)"
      proof
        fix b assume "b \<in> set as"
        with False path_in_range[OF as] have "b \<noteq> p" "b < length (heap s)" by auto
        then show "m_next (heap s' ! b) = m_next (heap s ! b)"
          by (cases "b = d") (simp_all add: assms(4))
      qed
    qed
    then show ?thesis ..
  qed
qed

lemma well_formed_new_list: "well_formed new_list"
  by (simp add: well_formed_def quiescent_iff acyclic_heap_def new_list_def ptr_ok_def)

lemma well_formed_cong:
  assumes "well_formed s" "heap s' = heap s" "m_head s' = m_head s"
  shows "well_formed s'"
proof -
  from assms(1) have q: "quiescent s" and ac: "acyclic_heap s"
    by (simp_all add: well_formed_def)
  have "ptr_ok s' = ptr_ok s"
    by (intro ext) (simp add: ptr_ok_def assms(2) split: option.splits)
  then have "quiescent s'"
    using q by (simp add: quiescent_def assms(2,3))
  moreover have "acyclic_heap s'"
    using ac by (rule acyclic_frame) (simp_all add: assms(2))
  ultimately show ?thesis by (simp add: well_formed_def)
qed

lemma well_formed_push_front:
  assumes "well_formed s" "push_front s v = Returned s' ()"
  shows "well_formed s'"
proof -
  from assms(2) have s': "s' = s\<lparr>heap := heap s @ [list_node_val_ptr v (m_head s)],
                                 m_head := Some (length (heap s))\<rparr>"
    by (simp add: push_front_eq)
  from assms(1) have q: "quiescent s" and ac: "acyclic_heap s"
    by (simp_all add: well_formed_def)
  have "quiescent s'"
    unfolding s' using q by (rule quiescent_push_front)
  moreover have "acyclic_heap s'"
    using ac
  proof (rule acyclic_append)
    show "heap s' = heap s @ [list_node_val_ptr v (m_head s)]" by (simp add: s')
    show "ptr_ok s (m_next (list_node_val_ptr v (m_head s)))"
      using q by (simp add: quiescent_iff list_node_val_ptr_def)
  qed
  ultimately show ?thesis by (simp add: well_formed_def)
qed

lemma well_formed_pop_front:
  assumes "well_formed s" "after (pop_front s) = Some s'"
  shows "well_formed s'"
proof (cases "m_head s")
  case None
  with assms(2) show ?thesis by (simp add: pop_front_empty)
next
  case (Some a)
  from assms(1) have q: "quiescent s" and ac: "acyclic_heap s"
    by (simp_all add: well_formed_def)
  from q Some have a: "a < length (heap s)" by (simp add: quiescent_iff ptr_ok_def)
  with q have "\<not> m_mtx (heap s ! a)" by (simp add: quiescent_iff)
  from pop_front_state[OF Some a this] assms(2)
  have s': "s' = s\<lparr>heap := (heap s)[a := (heap s ! a)\<lparr>m_deleted := True\<rparr>],
                   m_head := m_next (heap s ! a), lock_trace := lock_trace s @ [a]\<rparr>"
    by simp
  have len: "length (heap s') = length (heap s)" by (simp add: s')
  have hd: "m_head s' = m_next (heap s ! a)" by (simp add: s')
  have same: "m_next (heap s' ! b) = m_next (heap s ! b)" "m_mtx (heap s' ! b) = m_mtx (heap s ! b)"
    if "b < length (heap s)" for b
    using that by (cases "b = a", simp_all add: s')+
  have "quiescent s'"
    unfolding quiescent_iff
  proof (intro conjI allI impI)
    show "ptr_ok s' (m_head s')"
      unfolding hd using q a len ptr_ok_mono[of s "m_next (heap s ! a)" s']
      by (simp add: quiescent_iff)
  next
    fix b assume "b < length (heap s')"
    then have b: "b < length (heap s)" by (simp add: len)
    with q have "ptr_ok s (m_next (heap s ! b))" "\<not> m_mtx (heap s ! b)"
      by (simp_all add: quiescent_iff)
    then show "ptr_ok s' (m_next (heap s' ! b))" "\<not> m_mtx (heap s' ! b)"
      using same[OF b] len ptr_ok_mono[of s "m_next (heap s ! b)" s'] by simp_all
  qed
  moreover have "acyclic_heap s'"
    using ac len
  proof (rule acyclic_frame)
    show "\<forall>a<length (heap s). m_next (heap s' ! a) = m_next (heap s ! a)"
      using same by simp
  qed
  ultimately show ?thesis by (simp add: well_formed_def)
qed

lemma well_formed_insert_after:
  assumes "well_formed s" "ptr_ok s (m_node_ptr pos)" "after (insert_after s pos v) = Some s'"
  shows "well_formed s'"
proof (cases "m_node_ptr pos")
  case None
  then have "insert_after s pos v = Undefined Null_dereference"
    by (simp add: insert_after_def make_shared_def deref_def)
  with assms(3) show ?thesis by simp
next
  case (Some p)
  then have pos: "pos = Iterator (Some p)" by (cases pos) simp
  from assms(1) have q: "quiescent s" and ac: "acyclic_heap s"
    by (simp_all add: well_formed_def)
  from assms(2) Some have p: "p < length (heap s)" by (simp add: ptr_ok_def)
  note eq = insert_after_eq[OF p quiescentD(3)[OF q p], of v]
  show ?thesis
  proof (cases "m_deleted (heap s ! p)")
    case True
    with eq assms(3) have s': "s' = s\<lparr>heap := heap s @ [list_node_val v],
                                       lock_trace := lock_trace s @ [p]\<rparr>"
      by (simp add: pos)
    have len: "length (heap s) \<le> length (heap s')" by (simp add: s')
    have "quiescent s'"
    proof (rule quiescentI)
      show "ptr_ok s' (m_head s')"
        using ptr_ok_mono[OF quiescentD(1)[OF q] len] by (simp add: s')
    next
      fix b assume "b < length (heap s')"
      then consider "b < length (heap s)" | "b = length (heap s)" by (fastforce simp: s')
      then show "ptr_ok s' (m_next (heap s' ! b))"
      proof cases
        case 1
        then show ?thesis
          using ptr_ok_mono[OF quiescentD(2)[OF q 1] len] by (simp add: s' nth_append)
      next
        case 2
        then show ?thesis by (simp add: s' list_node_val_def ptr_ok_def)
      qed
    next
      fix b assume "b < length (heap s')"
      then consider "b < length (heap s)" | "b = length (heap s)" by (fastforce simp: s')
      then show "\<not> m_mtx (heap s' ! b)"
      proof cases
        case 1
        then show ?thesis
          using quiescentD(3)[OF q 1] by (simp add: s' nth_append)
      next
        case 2
        then show ?thesis by (simp add: s' list_node_val_def)
      qed
    qed
    moreover have "acyclic_heap s'"
      using ac
    proof (rule acyclic_append)
      show "heap s' = heap s @ [list_node_val v]" by (simp add: s')
      show "ptr_ok s (m_next (list_node_val v))" by (simp add: list_node_val_def ptr_ok_def)
    qed
    ultimately show ?thesis by (simp add: well_formed_def)
  next
    case False
    let ?n = "(list_node_val v)\<lparr>m_next := m_next (heap s ! p)\<rparr>"
    from False eq assms(3)
    have s': "s' = s\<lparr>heap := (heap s)[p := (heap s ! p)\<lparr>m_next := Some (length (heap s))\<rparr>]
                                  @ [?n],
                      lock_trace := lock_trace s @ [p]\<rparr>"
      by (simp add: pos)
    have len: "length (heap s) \<le> length (heap s')" by (simp add: s')
    have "quiescent s'"
    proof (rule quiescentI)
      show "ptr_ok s' (m_head s')"
        using ptr_ok_mono[OF quiescentD(1)[OF q] len] by (simp add: s')
    next
      fix b assume "b < length (heap s')"
      then consider "b < length (heap s)" "b \<noteq> p" | "b = p" | "b = length (heap s)"
        by (fastforce simp: s')
      then show "ptr_ok s' (m_next (heap s' ! b))"
      proof cases
        case 1
        then show ?thesis
          using ptr_ok_mono[OF quiescentD(2)[OF q 1(1)] len] by (simp add: s' nth_append)
      next
        case 2
        then show ?thesis using p by (simp add: s' nth_append ptr_ok_def)
      next
        case 3
        then show ?thesis
          using ptr_ok_mono[OF quiescentD(2)[OF q p] len] by (simp add: s' nth_append)
      qed
    next
      fix b assume "b < length (heap s')"
      then consider "b < length (heap s)" | "b = length (heap s)" by (fastforce simp: s')
      then show "\<not> m_mtx (heap s' ! b)"
      proof cases
        case 1
        then show ?thesis
          using quiescentD(3)[OF q 1] by (cases "b = p") (simp_all add: s' nth_append)
      next
        case 2
        then show ?thesis by (simp add: s' list_node_val_def nth_append)
      qed
    qed
    moreover have "acyclic_heap s'"
      using ac p
    proof (rule acyclic_insert)
      show "heap s' = (heap s)[p := (heap s ! p)\<lparr>m_next := Some (length (heap s))\<rparr>] @ [?n]"
        by (simp add: s')
      show "m_next ?n = m_next (heap s ! p)" by simp
    qed
    ultimately show ?thesis by (simp add: well_formed_def)
  qed
qed

lemma well_formed_erase_after:
  assumes "well_formed s" "ptr_ok s (m_node_ptr pos)" "after (erase_after s pos) = Some s'"
  shows "well_formed s'"
proof (cases "m_node_ptr pos")
  case None
  with assms(3) have "s' = s" by (simp add: erase_after_def)
  with assms(1) show ?thesis by simp
next
  case (Some p)
  then have pos: "pos = Iterator (Some p)" by (cases pos) simp
  from assms(1) have q: "quiescent s" and ac: "acyclic_heap s"
    by (simp_all add: well_formed_def)
  from assms(2) Some have p: "p < length (heap s)" by (simp add: ptr_ok_def)
  note mp = quiescentD(3)[OF q p]
  show ?thesis
  proof (cases "m_next (heap s ! p)")
    case None
    with assms(3) p have "s' = s" by (simp add: pos erase_after_cases)
    with assms(1) show ?thesis by simp
  next
    case nx: (Some d)
    from quiescentD(2)[OF q p] nx have d: "d < length (heap s)" by (simp add: ptr_ok_def)
    note md = quiescentD(3)[OF q d]
    from acyclic_succ_neq[OF ac p] nx have ne: "d \<noteq> p" by auto
    show ?thesis
    proof (cases "m_deleted (heap s ! p)")
      case True
      with assms(3) p nx mp have "s' = s\<lparr>lock_trace := lock_trace s @ [p]\<rparr>"
        by (simp add: pos erase_after_cases)
      then show ?thesis using well_formed_cong[OF assms(1), of s'] by simp
    next
      case False
      let ?h = "(heap s)[p := (heap s ! p)\<lparr>m_next := m_next (heap s ! d)\<rparr>,
                         d := (heap s ! d)\<lparr>m_deleted := True\<rparr>]"
      have thrown: "?h = (heap s)[p := (heap s ! p)\<lparr>m_next := m_next (heap s ! d)\<rparr>]"
        if "m_deleted (heap s ! d)"
      proof -
        from that have "(heap s ! d)\<lparr>m_deleted := True\<rparr> = heap s ! d" by simp
        then show ?thesis using ne by (simp add: list_update_swap[of p d])
      qed
      have h: "heap s' = ?h" and hd: "m_head s' = m_head s"
      proof -
        show "heap s' = ?h"
        proof (cases "m_deleted (heap s ! d)")
          case True
          with assms(3) p nx mp d md ne False thrown show ?thesis
            by (auto simp: pos erase_after_cases)
        next
          case dd: False
          with assms(3) p nx mp d md ne False show ?thesis
            by (auto simp: pos erase_after_cases)
        qed
        show "m_head s' = m_head s"
          using assms(3) p nx mp d md ne False
          by (auto simp: pos erase_after_cases split: if_splits)
      qed
      have len: "length (heap s') = length (heap s)" by (simp add: h)
      have nxt: "m_next (heap s' ! b) = (if b = p then m_next (heap s ! d) else m_next (heap s ! b))"
        and mtx: "m_mtx (heap s' ! b) = m_mtx (heap s ! b)"
        if "b < length (heap s)" for b
        using that ne by (cases "b = p", simp_all add: h, cases "b = d", simp_all)+
      have "quiescent s'"
      proof (rule quiescentI)
        show "ptr_ok s' (m_head s')"
          using ptr_ok_mono[OF quiescentD(1)[OF q], of s'] by (simp add: hd len)
      next
        fix b assume "b < length (heap s')"
        then have b: "b < length (heap s)" by (simp add: len)
        show "ptr_ok s' (m_next (heap s' ! b))"
          using ptr_ok_mono[OF quiescentD(2)[OF q b], of s']
            ptr_ok_mono[OF quiescentD(2)[OF q d], of s']
          by (simp add: nxt[OF b] len)
        show "\<not> m_mtx (heap s' ! b)"
          using quiescentD(3)[OF q b] by (simp add: mtx[OF b])
      qed
      moreover have "acyclic_heap s'"
        using ac p nx h by (rule acyclic_erase)
      ultimately show ?thesis by (simp add: well_formed_def)
    qed
  qed
qed

lemma well_formed_step:
  assumes "well_formed s" "call_ok s c" "step s c = Some s'"
  shows "well_formed s'"
proof (cases c)
  case (Push_front v)
  with assms(3) have "push_front s v = Returned s' ()" by (simp add: push_front_eq)
  with assms(1) show ?thesis by (rule well_formed_push_front)
next
  case Pop_front
  with assms(3) have "after (pop_front s) = Some s'" by simp
  with assms(1) show ?thesis by (rule well_formed_pop_front)
next
  case (Insert_after pos v)
  with assms(2,3) have "ptr_ok s (m_node_ptr pos)" "after (insert_after s pos v) = Some s'"
    by simp_all
  with assms(1) show ?thesis by (rule well_formed_insert_after)
next
  case (Erase_after pos)
  with assms(2,3) have "ptr_ok s (m_node_ptr pos)" "after (erase_after s pos) = Some s'"
    by simp_all
  with assms(1) show ?thesis by (rule well_formed_erase_after)
next
  case Clear
  with assms(3) have "s' = s\<lparr>m_head := None\<rparr>" by (simp add: clear_eq)
  moreover have "ptr_ok (s\<lparr>m_head := None\<rparr>) = ptr_ok s"
    by (intro ext) (simp add: ptr_ok_def split: option.splits)
  then have "quiescent (s\<lparr>m_head := None\<rparr>)"
    using assms(1) by (simp add: well_formed_def quiescent_def) (simp add: ptr_ok_def)
  moreover from assms(1) have "acyclic_heap (s\<lparr>m_head := None\<rparr>)"
    using acyclic_frame[of s "s\<lparr>m_head := None\<rparr>"] by (simp add: well_formed_def)
  ultimately show ?thesis by (simp add: well_formed_def)
qed

lemma reachable_well_formed: "reachable s \<Longrightarrow> well_formed s"
proof (induction rule: reachable.induct)
  case start
  show ?case by (rule well_formed_new_list)
next
  case (call s c s')
  then show ?case using well_formed_step by blast
qed

text \<open>
  So the hypotheses of the theorems below hold in every reachable state: it is
  quiescent, and no node is its own successor.
\<close>

lemma reachable_quiescent: "reachable s \<Longrightarrow> quiescent s"
  using reachable_well_formed by (auto simp: well_formed_def)

lemma reachable_succ_neq:
  assumes "reachable s" "p < length (heap s)"
  shows "m_next (heap s ! p) \<noteq> Some p"
proof -
  from assms(1) have "acyclic_heap s"
    using reachable_well_formed by (auto simp: well_formed_def)
  then show ?thesis using assms(2) by (rule acyclic_succ_neq)
qed

text \<open>
  In a reachable state a call with a valid position runs into undefined behaviour in
  two cases only: \<open>pop_front\<close> on the empty list and \<open>insert_after\<close> at the end position.
  No call meets a dangling pointer or a held mutex there.
\<close>

lemma reachable_faults:
  assumes "reachable s" "call_ok s c"
  shows "step s c = None \<longleftrightarrow>
           (c = Pop_front \<and> m_head s = None) \<or> (\<exists>v. c = Insert_after end_it v)"
proof -
  from assms(1) have wf: "well_formed s" by (rule reachable_well_formed)
  then have q: "quiescent s" and ac: "acyclic_heap s" by (simp_all add: well_formed_def)
  show ?thesis
  proof (cases c)
    case (Push_front v)
    then show ?thesis by (simp add: push_front_eq)
  next
    case Pop_front
    show ?thesis
    proof (cases "m_head s")
      case None
      with Pop_front show ?thesis by (simp add: pop_front_empty)
    next
      case (Some a)
      with q have a: "a < length (heap s)" by (simp add: quiescent_iff ptr_ok_def)
      from pop_front_state[OF Some a quiescentD(3)[OF q a]] Pop_front Some
      show ?thesis by simp
    qed
  next
    case (Insert_after pos v)
    show ?thesis
    proof (cases "m_node_ptr pos")
      case None
      then have "pos = end_it" by (cases pos) (simp add: end_it_def)
      with Insert_after show ?thesis
        by (simp add: insert_after_def make_shared_def deref_def end_it_def)
    next
      case (Some p)
      then have pos: "pos = Iterator (Some p)" by (cases pos) simp
      from assms(2) Insert_after Some have p: "p < length (heap s)" by (simp add: ptr_ok_def)
      from insert_after_eq[OF p quiescentD(3)[OF q p], of v] Insert_after
      show ?thesis by (simp add: pos end_it_def)
    qed
  next
    case (Erase_after pos)
    show ?thesis
    proof (cases "m_node_ptr pos")
      case None
      with Erase_after show ?thesis by (simp add: erase_after_def)
    next
      case (Some p)
      then have pos: "pos = Iterator (Some p)" by (cases pos) simp
      from assms(2) Erase_after Some have p: "p < length (heap s)" by (simp add: ptr_ok_def)
      show ?thesis
      proof (cases "m_next (heap s ! p)")
        case None
        with p Erase_after show ?thesis by (simp add: pos erase_after_cases)
      next
        case nx: (Some d)
        from quiescentD(2)[OF q p] nx have d: "d < length (heap s)" by (simp add: ptr_ok_def)
        from acyclic_succ_neq[OF ac p] nx have ne: "d \<noteq> p" by auto
        from p nx d ne quiescentD(3)[OF q p] quiescentD(3)[OF q d] Erase_after
        show ?thesis by (simp add: pos erase_after_cases)
      qed
    qed
  next
    case Clear
    then show ?thesis by simp
  qed
qed

subsection \<open>In a reachable state the list's nodes are not deleted\<close>

text \<open>
  A node leaves the list's chain when it is marked deleted, and a node that is not
  deleted and not in the list's chain (one that \<open>clear\<close> has cut off) never leads
  back into it. So \<open>pop_front\<close> always finds a head that is not deleted.
\<close>

lemma path_grow:
  assumes "path s r xs None" "heap s' = heap s @ ns"
  shows "path s' r xs None"
  using assms(1)
proof (rule path_frame)
  show "length (heap s) \<le> length (heap s')" by (simp add: assms(2))
  show "\<forall>a\<in>set xs. m_next (heap s' ! a) = m_next (heap s ! a)"
    using path_in_range[OF assms(1)] by (simp add: assms(2) nth_append)
qed

lemma path_heap_cong: "heap s' = heap s \<Longrightarrow> path s' r xs t = path s r xs t"
  by (induction xs arbitrary: r) simp_all

lemma path_start:
  assumes "path s (Some q) qs None"
  shows "q < length (heap s)" "q \<in> set qs"
  using assms by (cases qs; simp)+

lemma path_insert_image:
  assumes "path s r xs None"
    and "heap s' = (heap s)[p := (heap s ! p)\<lparr>m_next := Some (length (heap s))\<rparr>] @ [n]"
    and "m_next n = m_next (heap s ! p)"
  shows "\<exists>xs'. path s' r xs' None \<and>
           (if p \<in> set xs then set xs' = insert (length (heap s)) (set xs) else xs' = xs)"
proof (cases "p \<in> set xs")
  case True
  then obtain ys zs where xs: "xs = ys @ p # zs" by (auto simp: in_set_conv_decomp)
  with assms(1) have "path s' r (ys @ p # length (heap s) # zs) None"
    using path_insert[OF _ assms(2,3)] by blast
  with True xs show ?thesis by (intro exI[of _ "ys @ p # length (heap s) # zs"]) auto
next
  case False
  have "path s' r xs None"
    using assms(1)
  proof (rule path_frame)
    show "length (heap s) \<le> length (heap s')" by (simp add: assms(2))
    show "\<forall>a\<in>set xs. m_next (heap s' ! a) = m_next (heap s ! a)"
    proof
      fix b assume "b \<in> set xs"
      with False path_in_range[OF assms(1)] have "b \<noteq> p" "b < length (heap s)" by auto
      then show "m_next (heap s' ! b) = m_next (heap s ! b)"
        by (simp add: assms(2) nth_append)
    qed
  qed
  with False show ?thesis by auto
qed

lemma path_erase_image:
  assumes "path s r xs None" "m_next (heap s ! p) = Some d"
    and "heap s' = (heap s)[p := (heap s ! p)\<lparr>m_next := m_next (heap s ! d)\<rparr>,
                            d := (heap s ! d)\<lparr>m_deleted := True\<rparr>]"
  shows "\<exists>xs'. path s' r xs' None \<and>
           (if p \<in> set xs then d \<in> set xs \<and> set xs' = set xs - {d} else xs' = xs)"
proof (cases "p \<in> set xs")
  case True
  then obtain ys zs where xs: "xs = ys @ p # zs" by (auto simp: in_set_conv_decomp)
  with assms(1,2) obtain ws where zs: "zs = d # ws"
    by (cases zs) (auto simp: path_append)
  have dist: "distinct xs" using assms(1) by (rule path_distinct)
  from assms(1) xs zs have "path s' r (ys @ p # ws) None"
    using path_erase[OF _ assms(3)] by blast
  moreover have "set (ys @ p # ws) = set xs - {d}"
    using dist by (auto simp: xs zs)
  ultimately show ?thesis using True by (intro exI[of _ "ys @ p # ws"]) (simp add: xs zs)
next
  case False
  have "path s' r xs None"
    using assms(1)
  proof (rule path_frame)
    show "length (heap s) \<le> length (heap s')" by (simp add: assms(3))
    show "\<forall>a\<in>set xs. m_next (heap s' ! a) = m_next (heap s ! a)"
    proof
      fix b assume "b \<in> set xs"
      with False path_in_range[OF assms(1)] have "b \<noteq> p" "b < length (heap s)" by auto
      then show "m_next (heap s' ! b) = m_next (heap s ! b)"
        by (cases "b = d") (simp_all add: assms(3))
    qed
  qed
  with False show ?thesis by auto
qed

lemma chain_liveI:
  assumes "path s (m_head s) as None" "\<And>a. a \<in> set as \<Longrightarrow> \<not> m_deleted (heap s ! a)"
  shows "chain_live s"
  unfolding chain_live_def using assms path_unique by blast

lemma chain_liveD:
  "chain_live s \<Longrightarrow> path s (m_head s) as None \<Longrightarrow> a \<in> set as \<Longrightarrow> \<not> m_deleted (heap s ! a)"
  by (auto simp: chain_live_def)

lemma orphans_apartI:
  assumes "path s (m_head s) as None"
    and "\<And>q qs. path s (Some q) qs None \<Longrightarrow> \<not> m_deleted (heap s ! q) \<Longrightarrow> q \<notin> set as \<Longrightarrow>
           set qs \<inter> set as = {}"
  shows "orphans_apart s"
  unfolding orphans_apart_def
proof (intro allI impI)
  fix bs q qs
  assume h: "path s (m_head s) bs None \<and> path s (Some q) qs None \<and>
        \<not> m_deleted (heap s ! q) \<and> q \<notin> set bs"
  then have "bs = as" using assms(1) path_unique by blast
  with h assms(2) show "set qs \<inter> set bs = {}" by blast
qed

lemma orphans_apartD:
  "orphans_apart s \<Longrightarrow> path s (m_head s) as None \<Longrightarrow> path s (Some q) qs None \<Longrightarrow>
     \<not> m_deleted (heap s ! q) \<Longrightarrow> q \<notin> set as \<Longrightarrow> set qs \<inter> set as = {}"
  unfolding orphans_apart_def by blast

lemma sound_new_list: "sound new_list"
proof -
  have nil: "as = []" if "path (new_list :: 'a state) (m_head new_list) as None" for as
    using that by (cases as) (simp_all add: new_list_def)
  have "chain_live (new_list :: 'a state)"
    unfolding chain_live_def using nil by fastforce
  moreover have "orphans_apart (new_list :: 'a state)"
    unfolding orphans_apart_def using nil by fastforce
  ultimately show ?thesis by (simp add: sound_def well_formed_new_list)
qed

lemma sound_cong:
  assumes "sound s" "heap s' = heap s" "m_head s' = m_head s"
  shows "sound s'"
proof -
  have "well_formed s'"
    using assms well_formed_cong[of s s'] by (simp add: sound_def)
  moreover have "chain_live s'"
    using assms by (simp add: sound_def chain_live_def path_heap_cong[OF assms(2)])
  moreover have "orphans_apart s'"
  proof -
    from assms(1) have J: "orphans_apart s" by (simp add: sound_def)
    show ?thesis
      unfolding orphans_apart_def path_heap_cong[OF assms(2)] assms(2,3)
      using J unfolding orphans_apart_def .
  qed
  ultimately show ?thesis by (simp add: sound_def)
qed

lemma sound_push_front:
  assumes "sound s" "push_front s v = Returned s' ()"
  shows "sound s'"
proof -
  let ?n = "length (heap s)"
  from assms(2) have s': "s' = s\<lparr>heap := heap s @ [list_node_val_ptr v (m_head s)],
                                 m_head := Some ?n\<rparr>"
    by (simp add: push_front_eq)
  from assms(1) have wf: "well_formed s" and L: "chain_live s" and J: "orphans_apart s"
    by (simp_all add: sound_def)
  then have ac: "acyclic_heap s" and q: "quiescent s" by (simp_all add: well_formed_def)
  have wf': "well_formed s'" using wf assms(2) by (rule well_formed_push_front)
  have hp: "heap s' = heap s @ [list_node_val_ptr v (m_head s)]" by (simp add: s')
  from acyclic_ptr[OF ac quiescentD(1)[OF q]] obtain as where as: "path s (m_head s) as None" ..
  have as': "path s' (m_head s') (?n # as) None"
    using push_front_chain[OF as, of v] by (simp add: s')
  have old: "heap s' ! a = heap s ! a" if "a < ?n" for a
    using that by (simp add: hp nth_append)
  have rng: "a < ?n" if "a \<in> set as" for a
    using path_in_range[OF as that] .
  have "chain_live s'"
    using as'
  proof (rule chain_liveI)
    fix a assume "a \<in> set (?n # as)"
    then consider "a = ?n" | "a \<in> set as" by auto
    then show "\<not> m_deleted (heap s' ! a)"
    proof cases
      case 1
      then show ?thesis by (simp add: hp list_node_val_ptr_def)
    next
      case 2
      with chain_liveD[OF L as 2] old[OF rng[OF 2]] show ?thesis by simp
    qed
  qed
  moreover have "orphans_apart s'"
    using as'
  proof (rule orphans_apartI)
    fix b bs
    assume bs: "path s' (Some b) bs None" and lb: "\<not> m_deleted (heap s' ! b)"
      and nb: "b \<notin> set (?n # as)"
    from path_start[OF bs] nb have b: "b < ?n" by (simp add: hp)
    with ac obtain bs0 where bs0: "path s (Some b) bs0 None" by (auto simp: acyclic_heap_def)
    from path_grow[OF bs0 hp] bs have "bs = bs0" using path_unique by blast
    moreover from orphans_apartD[OF J as bs0] lb nb old[OF b]
    have "set bs0 \<inter> set as = {}" by simp
    moreover have "?n \<notin> set bs0" using path_in_range[OF bs0] by blast
    ultimately show "set bs \<inter> set (?n # as) = {}" by simp
  qed
  ultimately show ?thesis using wf' by (simp add: sound_def)
qed

lemma sound_pop_front:
  assumes "sound s" "after (pop_front s) = Some s'"
  shows "sound s'" "\<exists>r. pop_front s = Returned r ()"
proof -
  from assms(1) have wf: "well_formed s" and L: "chain_live s" and J: "orphans_apart s"
    by (simp_all add: sound_def)
  then have ac: "acyclic_heap s" and q: "quiescent s" by (simp_all add: well_formed_def)
  have wf': "well_formed s'" using wf assms(2) by (rule well_formed_pop_front)
  from assms(2) obtain a where hd: "m_head s = Some a"
    by (cases "m_head s") (simp_all add: pop_front_empty)
  from quiescentD(1)[OF q] hd have a: "a < length (heap s)" by (simp add: ptr_ok_def)
  note ma = quiescentD(3)[OF q a]
  from pop_front_state[OF hd a ma] assms(2)
  have s': "s' = s\<lparr>heap := (heap s)[a := (heap s ! a)\<lparr>m_deleted := True\<rparr>],
                   m_head := m_next (heap s ! a), lock_trace := lock_trace s @ [a]\<rparr>"
    by simp
  from acyclic_ptr[OF ac quiescentD(1)[OF q]] obtain as where as: "path s (m_head s) as None" ..
  with hd obtain tl where tl: "as = a # tl" and ptl: "path s (m_next (heap s ! a)) tl None"
    by (cases as) auto
  have fresh: "a \<notin> set tl" using ptl by (rule path_head_fresh)
  from chain_liveD[OF L as, of a] tl have "\<not> m_deleted (heap s ! a)" by simp
  then show "\<exists>r. pop_front s = Returned r ()"
    by (simp add: pop_front_eq[OF hd a ma])
  have nxt: "m_next (heap s' ! b) = m_next (heap s ! b)" if "b < length (heap s)" for b
    using that by (cases "b = a") (simp_all add: s')
  have del: "m_deleted (heap s' ! b) = m_deleted (heap s ! b)" if "b \<noteq> a" for b
    using that by (simp add: s')
  have len: "length (heap s') = length (heap s)" by (simp add: s')
  have mv: "path s' r xs None" if "path s r xs None" for r xs
    using that
  proof (rule path_frame)
    show "length (heap s) \<le> length (heap s')" by (simp add: len)
    show "\<forall>a\<in>set xs. m_next (heap s' ! a) = m_next (heap s ! a)"
      using path_in_range[OF that] nxt by blast
  qed
  have as': "path s' (m_head s') tl None"
    using mv[OF ptl] by (simp add: s')
  have "chain_live s'"
    using as'
  proof (rule chain_liveI)
    fix b assume b: "b \<in> set tl"
    with fresh have "b \<noteq> a" by auto
    with chain_liveD[OF L as, of b] b tl show "\<not> m_deleted (heap s' ! b)"
      by (simp add: del)
  qed
  moreover have "orphans_apart s'"
    using as'
  proof (rule orphans_apartI)
    fix b bs
    assume bs: "path s' (Some b) bs None" and lb: "\<not> m_deleted (heap s' ! b)"
      and nb: "b \<notin> set tl"
    from lb a have ba: "b \<noteq> a" by (auto simp: s')
    from path_start[OF bs] have b: "b < length (heap s)" by (simp add: len)
    with ac obtain bs0 where bs0: "path s (Some b) bs0 None" by (auto simp: acyclic_heap_def)
    from mv[OF bs0] bs have "bs = bs0" using path_unique by blast
    moreover from orphans_apartD[OF J as bs0] lb nb ba tl
    have "set bs0 \<inter> set as = {}" by (simp add: del)
    ultimately show "set bs \<inter> set tl = {}" using tl by auto
  qed
  ultimately show "sound s'" using wf' by (simp add: sound_def)
qed

lemma sound_clear:
  assumes "sound s"
  shows "sound (clear s)"
proof -
  have wf: "well_formed (clear s)"
    using assms well_formed_step[of s Clear "clear s"] by (simp add: sound_def)
  have nil: "path (clear s) (m_head (clear s)) [] None" by (simp add: clear_eq)
  have "chain_live (clear s)" using nil by (rule chain_liveI) simp
  moreover have "orphans_apart (clear s)" using nil by (rule orphans_apartI) simp
  ultimately show ?thesis using wf by (simp add: sound_def)
qed

lemma sound_insert_after:
  assumes "sound s" "ptr_ok s (m_node_ptr pos)" "after (insert_after s pos v) = Some s'"
  shows "sound s'"
proof (cases "m_node_ptr pos")
  case None
  then have "insert_after s pos v = Undefined Null_dereference"
    by (simp add: insert_after_def make_shared_def deref_def)
  with assms(3) show ?thesis by simp
next
  case (Some p)
  then have pos: "pos = Iterator (Some p)" by (cases pos) simp
  let ?n = "length (heap s)"
  from assms(1) have wf: "well_formed s" and L: "chain_live s" and J: "orphans_apart s"
    by (simp_all add: sound_def)
  then have ac: "acyclic_heap s" and q: "quiescent s" by (simp_all add: well_formed_def)
  have wf': "well_formed s'" using wf assms(2,3) by (rule well_formed_insert_after)
  from assms(2) Some have p: "p < ?n" by (simp add: ptr_ok_def)
  note eq = insert_after_eq[OF p quiescentD(3)[OF q p], of v]
  from acyclic_ptr[OF ac quiescentD(1)[OF q]] obtain as where as: "path s (m_head s) as None" ..
  have rng: "a < ?n" if "a \<in> set as" for a
    using path_in_range[OF as that] .
  show ?thesis
  proof (cases "m_deleted (heap s ! p)")
    case True
    with eq assms(3) have s': "s' = s\<lparr>heap := heap s @ [list_node_val v],
                                       lock_trace := lock_trace s @ [p]\<rparr>"
      by (simp add: pos)
    have hp: "heap s' = heap s @ [list_node_val v]" by (simp add: s')
    have old: "heap s' ! a = heap s ! a" if "a < ?n" for a
      using that by (simp add: hp nth_append)
    have as': "path s' (m_head s') as None"
      using path_grow[OF as hp] by (simp add: s')
    have "chain_live s'"
      using as'
    proof (rule chain_liveI)
      fix a assume a: "a \<in> set as"
      with chain_liveD[OF L as a] old[OF rng[OF a]] show "\<not> m_deleted (heap s' ! a)" by simp
    qed
    moreover have "orphans_apart s'"
      using as'
    proof (rule orphans_apartI)
      fix b bs
      assume bs: "path s' (Some b) bs None" and lb: "\<not> m_deleted (heap s' ! b)"
        and nb: "b \<notin> set as"
      from path_start[OF bs] have "b < ?n \<or> b = ?n" by (auto simp: hp)
      then show "set bs \<inter> set as = {}"
      proof
        assume b: "b < ?n"
        with ac obtain bs0 where bs0: "path s (Some b) bs0 None"
          by (auto simp: acyclic_heap_def)
        from path_grow[OF bs0 hp] bs have "bs = bs0" using path_unique by blast
        moreover from orphans_apartD[OF J as bs0] lb nb old[OF b]
        have "set bs0 \<inter> set as = {}" by simp
        ultimately show ?thesis by simp
      next
        assume b: "b = ?n"
        have "path s' (Some ?n) [?n] None" by (simp add: hp list_node_val_def)
        with bs b have "bs = [?n]" using path_unique by blast
        then show ?thesis using rng by auto
      qed
    qed
    ultimately show ?thesis using wf' by (simp add: sound_def)
  next
    case False
    let ?nd = "(list_node_val v)\<lparr>m_next := m_next (heap s ! p)\<rparr>"
    from False eq assms(3)
    have s': "s' = s\<lparr>heap := (heap s)[p := (heap s ! p)\<lparr>m_next := Some ?n\<rparr>] @ [?nd],
                      lock_trace := lock_trace s @ [p]\<rparr>"
      by (simp add: pos)
    have hp: "heap s' = (heap s)[p := (heap s ! p)\<lparr>m_next := Some ?n\<rparr>] @ [?nd]"
      by (simp add: s')
    have nx: "m_next ?nd = m_next (heap s ! p)" by simp
    have hd: "m_head s' = m_head s" by (simp add: s')
    have del: "m_deleted (heap s' ! a) = m_deleted (heap s ! a)" if "a < ?n" for a
      using that by (cases "a = p") (simp_all add: hp nth_append)
    have new: "\<not> m_deleted (heap s' ! ?n)" by (simp add: hp nth_append list_node_val_def)
    from path_insert_image[OF as hp nx] obtain as1 where
      as1: "path s' (m_head s') as1 None"
      and rel: "if p \<in> set as then set as1 = insert ?n (set as) else as1 = as"
      unfolding hd by blast
    have sub: "set as \<subseteq> set as1" using rel by (auto split: if_splits)
    have "chain_live s'"
      using as1
    proof (rule chain_liveI)
      fix a assume "a \<in> set as1"
      with rel have "a = ?n \<or> a \<in> set as" by (auto split: if_splits)
      then show "\<not> m_deleted (heap s' ! a)"
        using new chain_liveD[OF L as] del rng by auto
    qed
    moreover have "orphans_apart s'"
      using as1
    proof (rule orphans_apartI)
      fix b bs
      assume bs: "path s' (Some b) bs None" and lb: "\<not> m_deleted (heap s' ! b)"
        and nb: "b \<notin> set as1"
      from path_start[OF bs] have "b < ?n \<or> b = ?n" by (auto simp: hp)
      then show "set bs \<inter> set as1 = {}"
      proof
        assume b: "b < ?n"
        with ac obtain bs0 where bs0: "path s (Some b) bs0 None"
          by (auto simp: acyclic_heap_def)
        from path_insert_image[OF bs0 hp nx] obtain bs1 where
          bs1: "path s' (Some b) bs1 None"
          and relb: "if p \<in> set bs0 then set bs1 = insert ?n (set bs0) else bs1 = bs0"
          by blast
        from bs bs1 have eqb: "bs = bs1" using path_unique by blast
        from nb sub have "b \<notin> set as" by auto
        with orphans_apartD[OF J as bs0] lb del[OF b]
        have disj: "set bs0 \<inter> set as = {}" by simp
        have n0: "?n \<notin> set as" "?n \<notin> set bs0"
          using rng path_in_range[OF bs0] by blast+
        show ?thesis
        proof (cases "p \<in> set as")
          case True
          with disj have "p \<notin> set bs0" by auto
          with relb have "bs1 = bs0" by simp
          with True rel disj n0 show ?thesis by (auto simp: eqb)
        next
          case False
          with rel have "as1 = as" by simp
          with relb disj n0 show ?thesis by (auto simp: eqb split: if_splits)
        qed
      next
        assume b: "b = ?n"
        with nb rel have pn: "p \<notin> set as" and eqa: "as1 = as" by (auto split: if_splits)
        from ac p obtain ps where ps: "path s (Some p) ps None"
          by (auto simp: acyclic_heap_def)
        then obtain ys where ys: "ps = p # ys" and pys: "path s (m_next (heap s ! p)) ys None"
          by (cases ps) auto
        have "p \<notin> set ys" using pys by (rule path_head_fresh)
        with path_insert_image[OF pys hp nx] have "path s' (m_next (heap s ! p)) ys None"
          by simp
        then have "path s' (Some ?n) (?n # ys) None"
          by (simp add: hp nth_append)
        with bs b have "bs = ?n # ys" using path_unique by blast
        moreover from orphans_apartD[OF J as ps \<open>\<not> m_deleted (heap s ! p)\<close> pn] ys
        have "set ys \<inter> set as = {}" by auto
        moreover have "?n \<notin> set as" using rng by blast
        ultimately show ?thesis by (simp add: eqa)
      qed
    qed
    ultimately show ?thesis using wf' by (simp add: sound_def)
  qed
qed

lemma sound_erase_after:
  assumes "sound s" "ptr_ok s (m_node_ptr pos)" "after (erase_after s pos) = Some s'"
  shows "sound s'"
proof (cases "m_node_ptr pos")
  case None
  with assms(3) have "s' = s" by (simp add: erase_after_def)
  with assms(1) show ?thesis by simp
next
  case (Some p)
  then have pos: "pos = Iterator (Some p)" by (cases pos) simp
  from assms(1) have wf: "well_formed s" and L: "chain_live s" and J: "orphans_apart s"
    by (simp_all add: sound_def)
  then have ac: "acyclic_heap s" and q: "quiescent s" by (simp_all add: well_formed_def)
  have wf': "well_formed s'" using wf assms(2,3) by (rule well_formed_erase_after)
  from assms(2) Some have p: "p < length (heap s)" by (simp add: ptr_ok_def)
  note mp = quiescentD(3)[OF q p]
  show ?thesis
  proof (cases "m_next (heap s ! p)")
    case None
    with assms(3) p have "s' = s" by (simp add: pos erase_after_cases)
    with assms(1) show ?thesis by simp
  next
    case nx: (Some d)
    from quiescentD(2)[OF q p] nx have d: "d < length (heap s)" by (simp add: ptr_ok_def)
    note md = quiescentD(3)[OF q d]
    from acyclic_succ_neq[OF ac p] nx have ne: "d \<noteq> p" by auto
    show ?thesis
    proof (cases "m_deleted (heap s ! p)")
      case True
      with assms(3) p nx mp have "s' = s\<lparr>lock_trace := lock_trace s @ [p]\<rparr>"
        by (simp add: pos erase_after_cases)
      then show ?thesis using sound_cong[OF assms(1), of s'] by simp
    next
      case lp: False
      let ?h = "(heap s)[p := (heap s ! p)\<lparr>m_next := m_next (heap s ! d)\<rparr>,
                         d := (heap s ! d)\<lparr>m_deleted := True\<rparr>]"
      have thrown: "?h = (heap s)[p := (heap s ! p)\<lparr>m_next := m_next (heap s ! d)\<rparr>]"
        if "m_deleted (heap s ! d)"
      proof -
        from that have "(heap s ! d)\<lparr>m_deleted := True\<rparr> = heap s ! d" by simp
        then show ?thesis using ne by (simp add: list_update_swap[of p d])
      qed
      have hp: "heap s' = ?h"
      proof (cases "m_deleted (heap s ! d)")
        case True
        with assms(3) p nx mp d md ne lp thrown show ?thesis
          by (auto simp: pos erase_after_cases)
      next
        case False
        with assms(3) p nx mp d md ne lp show ?thesis
          by (auto simp: pos erase_after_cases)
      qed
      have hd: "m_head s' = m_head s"
        using assms(3) p nx mp d md ne lp
        by (auto simp: pos erase_after_cases split: if_splits)
      have del: "m_deleted (heap s' ! a) \<longleftrightarrow> a = d \<or> m_deleted (heap s ! a)"
        if "a < length (heap s)" for a
        using that ne d by (cases "a = d"; cases "a = p"; simp add: hp)
      have len: "length (heap s') = length (heap s)" by (simp add: hp)
      from acyclic_ptr[OF ac quiescentD(1)[OF q]] obtain as where
        as: "path s (m_head s) as None" ..
      from ac p obtain ps where ps: "path s (Some p) ps None"
        by (auto simp: acyclic_heap_def)
      with nx have dps: "d \<in> set ps"
        by (cases ps; simp) (cases "tl ps"; simp)
      from path_erase_image[OF as nx hp] obtain as1 where
        as1: "path s' (m_head s') as1 None"
        and rel: "if p \<in> set as then d \<in> set as \<and> set as1 = set as - {d} else as1 = as"
        unfolding hd by blast
      have d_out: "d \<notin> set as1"
      proof (cases "p \<in> set as")
        case True
        with rel show ?thesis by simp
      next
        case False
        with orphans_apartD[OF J as ps lp] dps rel show ?thesis by auto
      qed
      have sub: "set as1 \<subseteq> set as" using rel by (auto split: if_splits)
      have "chain_live s'"
        using as1
      proof (rule chain_liveI)
        fix a assume a: "a \<in> set as1"
        with sub have "a \<in> set as" by auto
        with chain_liveD[OF L as] path_in_range[OF as] a d_out
        show "\<not> m_deleted (heap s' ! a)" by (auto simp: del)
      qed
      moreover have "orphans_apart s'"
        using as1
      proof (rule orphans_apartI)
        fix b bs
        assume bs: "path s' (Some b) bs None" and lb: "\<not> m_deleted (heap s' ! b)"
          and nb: "b \<notin> set as1"
        from path_start[OF bs] have b: "b < length (heap s)" by (simp add: len)
        from lb del[OF b] have bd: "b \<noteq> d" and lb0: "\<not> m_deleted (heap s ! b)" by auto
        from ac b obtain bs0 where bs0: "path s (Some b) bs0 None"
          by (auto simp: acyclic_heap_def)
        from path_erase_image[OF bs0 nx hp] obtain bs1 where
          bs1: "path s' (Some b) bs1 None"
          and relb: "if p \<in> set bs0 then d \<in> set bs0 \<and> set bs1 = set bs0 - {d} else bs1 = bs0"
          by blast
        from bs bs1 have eqb: "bs = bs1" using path_unique by blast
        have subb: "set bs1 \<subseteq> set bs0" using relb by (auto split: if_splits)
        from nb bd rel have "b \<notin> set as" by (auto split: if_splits)
        with orphans_apartD[OF J as bs0 lb0] have "set bs0 \<inter> set as = {}" by simp
        with sub subb show "set bs \<inter> set as1 = {}" by (auto simp: eqb)
      qed
      ultimately show ?thesis using wf' by (simp add: sound_def)
    qed
  qed
qed

lemma sound_step:
  assumes "sound s" "call_ok s c" "step s c = Some s'"
  shows "sound s'"
proof (cases c)
  case (Push_front v)
  with assms(3) have "push_front s v = Returned s' ()" by (simp add: push_front_eq)
  with assms(1) show ?thesis by (rule sound_push_front)
next
  case Pop_front
  with assms(3) have "after (pop_front s) = Some s'" by simp
  with assms(1) show ?thesis by (rule sound_pop_front)
next
  case (Insert_after pos v)
  with assms(2,3) have "ptr_ok s (m_node_ptr pos)" "after (insert_after s pos v) = Some s'"
    by simp_all
  with assms(1) show ?thesis by (rule sound_insert_after)
next
  case (Erase_after pos)
  with assms(2,3) have "ptr_ok s (m_node_ptr pos)" "after (erase_after s pos) = Some s'"
    by simp_all
  with assms(1) show ?thesis by (rule sound_erase_after)
next
  case Clear
  with assms(1,3) show ?thesis using sound_clear[of s] by simp
qed

lemma reachable_sound: "reachable s \<Longrightarrow> sound s"
proof (induction rule: reachable.induct)
  case start
  show ?case by (rule sound_new_list)
next
  case (call s c s')
  then show ?case using sound_step by blast
qed

lemma reachable_chain_live:
  assumes "reachable s" "path s (m_head s) as None"
  shows "live s as"
  using reachable_sound[OF assms(1)] assms(2)
  by (auto simp: sound_def chain_live_def live_def list_all_iff)

lemma reachable_pop_front:
  assumes "reachable s" "m_head s \<noteq> None"
  shows "\<exists>s'. pop_front s = Returned s' ()"
proof -
  from assms(1) have snd: "sound s" by (rule reachable_sound)
  then have q: "quiescent s" by (simp add: sound_def well_formed_def)
  from assms(2) obtain a where hd: "m_head s = Some a" by auto
  from quiescentD(1)[OF q] hd have a: "a < length (heap s)" by (simp add: ptr_ok_def)
  from pop_front_state[OF hd a quiescentD(3)[OF q a]]
  obtain s' where "after (pop_front s) = Some s'" by simp
  with snd show ?thesis by (rule sound_pop_front)
qed

section \<open>The claims\<close>

subsection \<open>\<open>pop_front\<close> on the empty list\<close>

text \<open>
  Claim C1 says that \<open>pop_front\<close> completes or throws the double-delete error in every
  state, the empty list included. On the empty list the loop of \<open>pop_front\<close> is left
  with an empty \<open>old_head\<close>, which \<^verbatim>\<open>old_head->lock()\<close> then dereferences.
\<close>

theorem pop_front_new_list:
  "pop_front (new_list :: int state) = Undefined Null_dereference"
  by (simp add: pop_front_empty new_list_def)

subsection \<open>\<open>erase_after\<close>\<close>

lemma erase_after_quiescent:
  "quiescent s \<and> ptr_ok s (m_node_ptr pos) \<longrightarrow>
     ((\<exists>s'. erase_after s pos = Returned s' False) \<longleftrightarrow>
        (case m_node_ptr pos of
           None \<Rightarrow> True
         | Some p \<Rightarrow> m_next (heap s ! p) = None \<or> m_deleted (heap s ! p))) \<and>
     (\<forall>s'. erase_after s pos = Returned s' False \<longrightarrow> heap s' = heap s \<and> m_head s' = m_head s) \<and>
     (\<forall>p d. m_node_ptr pos = Some p \<and> m_next (heap s ! p) = Some d \<and>
            \<not> m_deleted (heap s ! p) \<and> d \<noteq> p \<longrightarrow>
        (\<exists>s'. erase_after s pos =
                 (if m_deleted (heap s ! d) then Thrown s' else Returned s' True) \<and>
              m_head s' = m_head s \<and>
              heap s' = (heap s)[p := (heap s ! p)\<lparr>m_next := m_next (heap s ! d)\<rparr>,
                                 d := (heap s ! d)\<lparr>m_deleted := True\<rparr>] \<and>
              (\<forall>r xs ys. path s r (xs @ p # d # ys) None \<longrightarrow> path s' r (xs @ p # ys) None)))"
proof (intro impI)
  assume h: "quiescent s \<and> ptr_ok s (m_node_ptr pos)"
  obtain q where pos: "pos = Iterator q" by (cases pos)
  show "((\<exists>s'. erase_after s pos = Returned s' False) \<longleftrightarrow>
        (case m_node_ptr pos of
           None \<Rightarrow> True
         | Some p \<Rightarrow> m_next (heap s ! p) = None \<or> m_deleted (heap s ! p))) \<and>
     (\<forall>s'. erase_after s pos = Returned s' False \<longrightarrow> heap s' = heap s \<and> m_head s' = m_head s) \<and>
     (\<forall>p d. m_node_ptr pos = Some p \<and> m_next (heap s ! p) = Some d \<and>
            \<not> m_deleted (heap s ! p) \<and> d \<noteq> p \<longrightarrow>
        (\<exists>s'. erase_after s pos =
                 (if m_deleted (heap s ! d) then Thrown s' else Returned s' True) \<and>
              m_head s' = m_head s \<and>
              heap s' = (heap s)[p := (heap s ! p)\<lparr>m_next := m_next (heap s ! d)\<rparr>,
                                 d := (heap s ! d)\<lparr>m_deleted := True\<rparr>] \<and>
              (\<forall>r xs ys. path s r (xs @ p # d # ys) None \<longrightarrow> path s' r (xs @ p # ys) None)))"
  proof (cases q)
    case None
    then show ?thesis by (simp add: pos erase_after_def)
  next
    case (Some p)
    with h pos have p: "p < length (heap s)" by (simp add: ptr_ok_def)
    with h have mp: "\<not> m_mtx (heap s ! p)" and okp: "ptr_ok s (m_next (heap s ! p))"
      using quiescent_nth by blast+
    show ?thesis
    proof (cases "m_next (heap s ! p)")
      case None
      with p show ?thesis by (simp add: pos Some erase_after_cases)
    next
      case nx: (Some d)
      with okp have d: "d < length (heap s)" by (simp add: ptr_ok_def)
      with h have md: "\<not> m_mtx (heap s ! d)" using quiescent_nth by blast
      show ?thesis
      proof (cases "m_deleted (heap s ! p)")
        case True
        with p mp nx show ?thesis by (simp add: pos Some erase_after_cases)
      next
        case dp: False
        show ?thesis
        proof (cases "d = p")
          case True
          with p mp nx dp d show ?thesis by (simp add: pos Some erase_after_cases)
        next
          case ne: False
          let ?h = "(heap s)[p := (heap s ! p)\<lparr>m_next := m_next (heap s ! d)\<rparr>,
                             d := (heap s ! d)\<lparr>m_deleted := True\<rparr>]"
          let ?s' = "s\<lparr>heap := ?h, lock_trace := lock_trace s @ [p, d]\<rparr>"
          have chain: "\<forall>r xs ys. path s r (xs @ p # d # ys) None \<longrightarrow>
                         path ?s' r (xs @ p # ys) None"
          proof (intro allI impI)
            fix r xs ys
            assume "path s r (xs @ p # d # ys) None"
            then show "path ?s' r (xs @ p # ys) None"
              using path_erase[of s r xs p d ys ?s'] by simp
          qed
          show ?thesis
          proof (cases "m_deleted (heap s ! d)")
            case True
            then have "(heap s ! d)\<lparr>m_deleted := True\<rparr> = heap s ! d" by simp
            then have "?h = (heap s)[p := (heap s ! p)\<lparr>m_next := m_next (heap s ! d)\<rparr>]"
              using ne by (simp add: list_update_swap[of p d])
            then have "erase_after s pos = Thrown ?s'"
              using p mp nx dp d md ne True by (simp add: pos Some erase_after_cases)
            with True dp nx ne chain show ?thesis
              by (simp add: pos Some)
          next
            case False
            then have "erase_after s pos = Returned ?s' True"
              using p mp nx dp d md ne by (simp add: pos Some erase_after_cases)
            with False dp nx ne chain show ?thesis
              by (simp add: pos Some)
          qed
        qed
      qed
    qed
  qed
qed

text \<open>
  Claim C2. In a quiescent state, for a position that is the end or refers to a node
  of the store, \<open>erase_after\<close> returns false exactly when the position is the end, its
  node has no successor, or its node is marked deleted; a false return leaves the
  store and the head as they were. Otherwise, with \<open>d\<close> the successor of the
  position's node \<open>p\<close>, it makes the successor of \<open>d\<close> the successor of \<open>p\<close> and marks
  \<open>d\<close> deleted, changing nothing else: it throws if \<open>d\<close> was marked already and returns
  true if not, and every chain that ran through \<open>p\<close> and \<open>d\<close> runs on without \<open>d\<close>, all
  other nodes in place. (A node that is its own successor is left out: the call
  would wait for the mutex it holds itself. No reachable state has such a node, by
  \<open>reachable_succ_neq\<close>.) In a reachable state, at a position \<open>p\<close> of the list's chain
  that has a successor \<open>d\<close> there, \<open>erase_after\<close> returns true and the list's chain is
  the one before without \<open>d\<close>.
\<close>

theorem erase_after_spec:
  "(quiescent s \<and> ptr_ok s (m_node_ptr pos) \<longrightarrow>
      ((\<exists>s'. erase_after s pos = Returned s' False) \<longleftrightarrow>
         (case m_node_ptr pos of
            None \<Rightarrow> True
          | Some p \<Rightarrow> m_next (heap s ! p) = None \<or> m_deleted (heap s ! p))) \<and>
      (\<forall>s'. erase_after s pos = Returned s' False \<longrightarrow> heap s' = heap s \<and> m_head s' = m_head s) \<and>
      (\<forall>p d. m_node_ptr pos = Some p \<and> m_next (heap s ! p) = Some d \<and>
             \<not> m_deleted (heap s ! p) \<and> d \<noteq> p \<longrightarrow>
         (\<exists>s'. erase_after s pos =
                  (if m_deleted (heap s ! d) then Thrown s' else Returned s' True) \<and>
               m_head s' = m_head s \<and>
               heap s' = (heap s)[p := (heap s ! p)\<lparr>m_next := m_next (heap s ! d)\<rparr>,
                                  d := (heap s ! d)\<lparr>m_deleted := True\<rparr>] \<and>
               (\<forall>r xs ys. path s r (xs @ p # d # ys) None \<longrightarrow> path s' r (xs @ p # ys) None)))) \<and>
   (reachable s \<and> path s (m_head s) (xs @ p # d # ys) None \<longrightarrow>
      (\<exists>s'. erase_after s (Iterator (Some p)) = Returned s' True \<and>
            path s' (m_head s') (xs @ p # ys) None))"
proof (intro conjI)
  show "quiescent s \<and> ptr_ok s (m_node_ptr pos) \<longrightarrow>
     ((\<exists>s'. erase_after s pos = Returned s' False) \<longleftrightarrow>
        (case m_node_ptr pos of
           None \<Rightarrow> True
         | Some p \<Rightarrow> m_next (heap s ! p) = None \<or> m_deleted (heap s ! p))) \<and>
     (\<forall>s'. erase_after s pos = Returned s' False \<longrightarrow> heap s' = heap s \<and> m_head s' = m_head s) \<and>
     (\<forall>p d. m_node_ptr pos = Some p \<and> m_next (heap s ! p) = Some d \<and>
            \<not> m_deleted (heap s ! p) \<and> d \<noteq> p \<longrightarrow>
        (\<exists>s'. erase_after s pos =
                 (if m_deleted (heap s ! d) then Thrown s' else Returned s' True) \<and>
              m_head s' = m_head s \<and>
              heap s' = (heap s)[p := (heap s ! p)\<lparr>m_next := m_next (heap s ! d)\<rparr>,
                                 d := (heap s ! d)\<lparr>m_deleted := True\<rparr>] \<and>
              (\<forall>r xs ys. path s r (xs @ p # d # ys) None \<longrightarrow> path s' r (xs @ p # ys) None)))"
    by (rule erase_after_quiescent)
next
  show "reachable s \<and> path s (m_head s) (xs @ p # d # ys) None \<longrightarrow>
      (\<exists>s'. erase_after s (Iterator (Some p)) = Returned s' True \<and>
            path s' (m_head s') (xs @ p # ys) None)"
  proof
    assume h: "reachable s \<and> path s (m_head s) (xs @ p # d # ys) None"
    then have q: "quiescent s" and chain: "path s (m_head s) (xs @ p # d # ys) None"
      using reachable_quiescent by blast+
    from h have "live s (xs @ p # d # ys)" using reachable_chain_live by blast
    then have lp: "\<not> m_deleted (heap s ! p)" and ld: "\<not> m_deleted (heap s ! d)"
      by (simp_all add: live_def)
    from chain have p: "p < length (heap s)" and nx: "m_next (heap s ! p) = Some d"
      by (auto simp: path_append)
    from path_distinct[OF chain] have ne: "d \<noteq> p" by auto
    from q p have ok: "quiescent s \<and> ptr_ok s (m_node_ptr (Iterator (Some p)))"
      by (simp add: ptr_ok_def)
    from erase_after_quiescent[of s "Iterator (Some p)"] ok nx lp ld ne
    obtain s' where r: "erase_after s (Iterator (Some p)) = Returned s' True"
      and hd: "m_head s' = m_head s"
      and mv: "\<forall>r xs ys. path s r (xs @ p # d # ys) None \<longrightarrow> path s' r (xs @ p # ys) None"
      by auto
    from mv chain hd have "path s' (m_head s') (xs @ p # ys) None" by simp
    with r show "\<exists>s'. erase_after s (Iterator (Some p)) = Returned s' True \<and>
            path s' (m_head s') (xs @ p # ys) None"
      by blast
  qed
qed

theorem erase_after_spec_witness:
  "erase_after \<lparr>heap = [list_node_val_ptr (1::int) None, list_node_val_ptr 2 (Some 0),
                        list_node_val_ptr 3 (Some 1)],
                m_head = Some 2, lock_trace = []\<rparr> (Iterator (Some 2)) =
     Returned \<lparr>heap = [list_node_val_ptr 1 None,
                      (list_node_val_ptr 2 (Some 0))\<lparr>m_deleted := True\<rparr>,
                      list_node_val_ptr 3 (Some 0)],
               m_head = Some 2, lock_trace = [2, 1]\<rparr> True \<and>
   path \<lparr>heap = [list_node_val_ptr (1::int) None,
                (list_node_val_ptr 2 (Some 0))\<lparr>m_deleted := True\<rparr>,
                list_node_val_ptr 3 (Some 0)],
         m_head = Some 2, lock_trace = [2, 1]\<rparr> (Some 2) [2, 0] None"
  using erase_after_spec[where s =
      "\<lparr>heap = [list_node_val_ptr (1::int) None, list_node_val_ptr 2 (Some 0),
                list_node_val_ptr 3 (Some 1)],
        m_head = Some 2, lock_trace = []\<rparr>" and pos = "Iterator (Some 2)"]
  by (simp add: erase_after_cases list_node_val_ptr_def quiescent_def ptr_ok_def)

subsection \<open>\<open>insert_after\<close>\<close>

lemma insert_after_quiescent:
  "quiescent s \<and> p < length (heap s) \<longrightarrow>
     (\<exists>s'. insert_after s (Iterator (Some p)) v = Returned s' (\<not> m_deleted (heap s ! p)) \<and>
          m_head s' = m_head s \<and>
          (m_deleted (heap s ! p) \<longrightarrow>
             heap s' = heap s @ [\<lparr>m_val = v, m_mtx = False, m_deleted = False, m_next = None\<rparr>] \<and>
             m_head s' \<noteq> Some (length (heap s)) \<and>
             (\<forall>a<length (heap s'). m_next (heap s' ! a) \<noteq> Some (length (heap s))) \<and>
             (\<forall>r as. path s r as None \<longrightarrow> path s' r as None) \<and>
             (\<forall>as. path s (m_head s) as None \<longrightarrow>
                   list_size s' = Some (Inr (length as)) \<and> list_size s = Some (Inr (length as)))) \<and>
          (\<not> m_deleted (heap s ! p) \<longrightarrow>
             heap s' = (heap s)[p := (heap s ! p)\<lparr>m_next := Some (length (heap s))\<rparr>] @
                       [\<lparr>m_val = v, m_mtx = False, m_deleted = False,
                         m_next = m_next (heap s ! p)\<rparr>] \<and>
             (\<forall>r xs ys. path s r (xs @ p # ys) None \<longrightarrow>
                        path s' r (xs @ p # length (heap s) # ys) None)))"
proof (intro impI)
  assume h: "quiescent s \<and> p < length (heap s)"
  then have p: "p < length (heap s)" and mp: "\<not> m_mtx (heap s ! p)"
    using quiescent_nth by blast+
  note eq = insert_after_eq[OF p mp, of v]
  show "\<exists>s'. insert_after s (Iterator (Some p)) v = Returned s' (\<not> m_deleted (heap s ! p)) \<and>
          m_head s' = m_head s \<and>
          (m_deleted (heap s ! p) \<longrightarrow>
             heap s' = heap s @ [\<lparr>m_val = v, m_mtx = False, m_deleted = False, m_next = None\<rparr>] \<and>
             m_head s' \<noteq> Some (length (heap s)) \<and>
             (\<forall>a<length (heap s'). m_next (heap s' ! a) \<noteq> Some (length (heap s))) \<and>
             (\<forall>r as. path s r as None \<longrightarrow> path s' r as None) \<and>
             (\<forall>as. path s (m_head s) as None \<longrightarrow>
                   list_size s' = Some (Inr (length as)) \<and> list_size s = Some (Inr (length as)))) \<and>
          (\<not> m_deleted (heap s ! p) \<longrightarrow>
             heap s' = (heap s)[p := (heap s ! p)\<lparr>m_next := Some (length (heap s))\<rparr>] @
                       [\<lparr>m_val = v, m_mtx = False, m_deleted = False,
                         m_next = m_next (heap s ! p)\<rparr>] \<and>
             (\<forall>r xs ys. path s r (xs @ p # ys) None \<longrightarrow>
                        path s' r (xs @ p # length (heap s) # ys) None))"
  proof (cases "m_deleted (heap s ! p)")
    case True
    let ?s' = "s\<lparr>heap := heap s @ [list_node_val v], lock_trace := lock_trace s @ [p]\<rparr>"
    have r: "insert_after s (Iterator (Some p)) v = Returned ?s' False"
      using eq True by simp
    have hd: "m_head ?s' \<noteq> Some (length (heap s))"
      using h by (auto simp: quiescent_def ptr_ok_def)
    have unlinked: "\<forall>a<length (heap ?s'). m_next (heap ?s' ! a) \<noteq> Some (length (heap s))"
    proof (intro allI impI)
      fix a assume "a < length (heap ?s')"
      then consider "a < length (heap s)" | "a = length (heap s)" by fastforce
      then show "m_next (heap ?s' ! a) \<noteq> Some (length (heap s))"
      proof cases
        case 1
        with h have "ptr_ok s (m_next (heap s ! a))" using quiescent_nth by blast
        with 1 show ?thesis by (auto simp: ptr_ok_def nth_append)
      next
        case 2
        then show ?thesis by (simp add: list_node_val_def)
      qed
    qed
    have frame: "path ?s' r as None" if "path s r as None" for r as
      using that
    proof (rule path_frame)
      show "length (heap s) \<le> length (heap ?s')" by simp
      show "\<forall>a\<in>set as. m_next (heap ?s' ! a) = m_next (heap s ! a)"
        using path_in_range[OF that] by (simp add: nth_append)
    qed
    have size: "list_size ?s' = Some (Inr (length as)) \<and> list_size s = Some (Inr (length as))"
      if "path s (m_head s) as None" for as
      using list_size_loop_path[OF that, of 0] list_size_loop_path[OF frame[OF that], of 0]
      by (simp add: list_size_def begin_it_def)
    from True r hd unlinked frame size show ?thesis
      by (intro exI[of _ ?s']) (simp add: list_node_val_def)
  next
    case False
    let ?n = "\<lparr>m_val = v, m_mtx = False, m_deleted = False, m_next = m_next (heap s ! p)\<rparr>"
    let ?s' = "s\<lparr>heap := (heap s)[p := (heap s ! p)\<lparr>m_next := Some (length (heap s))\<rparr>] @ [?n],
                  lock_trace := lock_trace s @ [p]\<rparr>"
    have r: "insert_after s (Iterator (Some p)) v = Returned ?s' True"
      using eq False by (simp add: list_node_val_def)
    have chain: "path ?s' r (xs @ p # length (heap s) # ys) None"
      if "path s r (xs @ p # ys) None" for r xs ys
      using path_insert[OF that, of ?s' ?n] by simp
    from False r chain show ?thesis
      by (intro exI[of _ ?s']) simp
  qed
qed

text \<open>
  Claim C3. In a quiescent state, \<open>insert_after\<close> at a node \<open>p\<close> of the store returns,
  and returns false exactly when \<open>p\<close> is marked deleted. In that case the new node has
  been allocated but neither the head nor any node refers to it, every chain is as
  before and the list has the size it had. Otherwise the new node holds the value,
  its successor is the old successor of \<open>p\<close>, the successor of \<open>p\<close> is the new node,
  and every chain through \<open>p\<close> has the new node right after \<open>p\<close>. In a reachable
  state, at a position \<open>p\<close> of the list's chain, \<open>insert_after\<close> returns true and the
  list's chain is the one before with the new node after \<open>p\<close>.
\<close>

theorem insert_after_spec:
  "(quiescent s \<and> p < length (heap s) \<longrightarrow>
      (\<exists>s'. insert_after s (Iterator (Some p)) v = Returned s' (\<not> m_deleted (heap s ! p)) \<and>
           m_head s' = m_head s \<and>
           (m_deleted (heap s ! p) \<longrightarrow>
              heap s' = heap s @ [\<lparr>m_val = v, m_mtx = False, m_deleted = False, m_next = None\<rparr>] \<and>
              m_head s' \<noteq> Some (length (heap s)) \<and>
              (\<forall>a<length (heap s'). m_next (heap s' ! a) \<noteq> Some (length (heap s))) \<and>
              (\<forall>r as. path s r as None \<longrightarrow> path s' r as None) \<and>
              (\<forall>as. path s (m_head s) as None \<longrightarrow>
                    list_size s' = Some (Inr (length as)) \<and> list_size s = Some (Inr (length as)))) \<and>
           (\<not> m_deleted (heap s ! p) \<longrightarrow>
              heap s' = (heap s)[p := (heap s ! p)\<lparr>m_next := Some (length (heap s))\<rparr>] @
                        [\<lparr>m_val = v, m_mtx = False, m_deleted = False,
                          m_next = m_next (heap s ! p)\<rparr>] \<and>
              (\<forall>r xs ys. path s r (xs @ p # ys) None \<longrightarrow>
                         path s' r (xs @ p # length (heap s) # ys) None)))) \<and>
   (reachable s \<and> path s (m_head s) (xs @ p # ys) None \<longrightarrow>
      (\<exists>s'. insert_after s (Iterator (Some p)) v = Returned s' True \<and>
            path s' (m_head s') (xs @ p # length (heap s) # ys) None \<and>
            m_val (heap s' ! length (heap s)) = v))"
proof (intro conjI)
  show "quiescent s \<and> p < length (heap s) \<longrightarrow>
     (\<exists>s'. insert_after s (Iterator (Some p)) v = Returned s' (\<not> m_deleted (heap s ! p)) \<and>
          m_head s' = m_head s \<and>
          (m_deleted (heap s ! p) \<longrightarrow>
             heap s' = heap s @ [\<lparr>m_val = v, m_mtx = False, m_deleted = False, m_next = None\<rparr>] \<and>
             m_head s' \<noteq> Some (length (heap s)) \<and>
             (\<forall>a<length (heap s'). m_next (heap s' ! a) \<noteq> Some (length (heap s))) \<and>
             (\<forall>r as. path s r as None \<longrightarrow> path s' r as None) \<and>
             (\<forall>as. path s (m_head s) as None \<longrightarrow>
                   list_size s' = Some (Inr (length as)) \<and> list_size s = Some (Inr (length as)))) \<and>
          (\<not> m_deleted (heap s ! p) \<longrightarrow>
             heap s' = (heap s)[p := (heap s ! p)\<lparr>m_next := Some (length (heap s))\<rparr>] @
                       [\<lparr>m_val = v, m_mtx = False, m_deleted = False,
                         m_next = m_next (heap s ! p)\<rparr>] \<and>
             (\<forall>r xs ys. path s r (xs @ p # ys) None \<longrightarrow>
                        path s' r (xs @ p # length (heap s) # ys) None)))"
    by (rule insert_after_quiescent)
next
  show "reachable s \<and> path s (m_head s) (xs @ p # ys) None \<longrightarrow>
      (\<exists>s'. insert_after s (Iterator (Some p)) v = Returned s' True \<and>
            path s' (m_head s') (xs @ p # length (heap s) # ys) None \<and>
            m_val (heap s' ! length (heap s)) = v)"
  proof
    assume h: "reachable s \<and> path s (m_head s) (xs @ p # ys) None"
    then have q: "quiescent s" and chain: "path s (m_head s) (xs @ p # ys) None"
      using reachable_quiescent by blast+
    from h have "live s (xs @ p # ys)" using reachable_chain_live by blast
    then have lp: "\<not> m_deleted (heap s ! p)" by (simp add: live_def)
    from chain have p: "p < length (heap s)" by (auto simp: path_append)
    from insert_after_quiescent[of s p v] q p lp
    obtain s' where r: "insert_after s (Iterator (Some p)) v = Returned s' True"
      and hd: "m_head s' = m_head s"
      and hp: "heap s' = (heap s)[p := (heap s ! p)\<lparr>m_next := Some (length (heap s))\<rparr>] @
                       [\<lparr>m_val = v, m_mtx = False, m_deleted = False,
                         m_next = m_next (heap s ! p)\<rparr>]"
      and mv: "\<forall>r xs ys. path s r (xs @ p # ys) None \<longrightarrow>
                        path s' r (xs @ p # length (heap s) # ys) None"
      by auto
    from mv chain hd have "path s' (m_head s') (xs @ p # length (heap s) # ys) None" by simp
    moreover have "m_val (heap s' ! length (heap s)) = v" by (simp add: hp nth_append)
    ultimately show "\<exists>s'. insert_after s (Iterator (Some p)) v = Returned s' True \<and>
            path s' (m_head s') (xs @ p # length (heap s) # ys) None \<and>
            m_val (heap s' ! length (heap s)) = v"
      using r by blast
  qed
qed

theorem insert_after_spec_witness:
  "insert_after \<lparr>heap = [list_node_val_ptr (1::int) None, list_node_val_ptr 2 (Some 0)],
                 m_head = Some 1, lock_trace = []\<rparr> (Iterator (Some 1)) 7 =
     Returned \<lparr>heap = [list_node_val_ptr 1 None, list_node_val_ptr 2 (Some 2),
                      list_node_val_ptr 7 (Some 0)],
               m_head = Some 1, lock_trace = [1]\<rparr> True \<and>
   path \<lparr>heap = [list_node_val_ptr (1::int) None, list_node_val_ptr 2 (Some 2),
                list_node_val_ptr 7 (Some 0)],
         m_head = Some 1, lock_trace = [1]\<rparr> (Some 1) [1, 2, 0] None"
  using insert_after_spec[where s =
      "\<lparr>heap = [list_node_val_ptr (1::int) None, list_node_val_ptr 2 (Some 0)],
        m_head = Some 1, lock_trace = []\<rparr>" and p = 1 and v = 7]
  by (simp add: insert_after_eq list_node_val_ptr_def list_node_val_def quiescent_def ptr_ok_def)

subsection \<open>\<open>push_front\<close>\<close>

text \<open>
  Claim C4. \<open>push_front s v\<close> always returns. It appends one node to the store, with
  value \<open>v\<close>, not deleted, whose successor is the previous head, makes it the head and
  leaves every existing node as it was. Consequently the test program's loop pushing
  \<open>1..100\<close> into a new list gives a list whose traversal from \<open>begin()\<close> to \<open>end()\<close>
  ends, counts 100 nodes, sums to 5050 and finds \<open>is_valid()\<close> true at every position.
\<close>

theorem push_front_spec:
  "push_front s v =
     Returned (s\<lparr>heap := heap s @ [\<lparr>m_val = v, m_mtx = False, m_deleted = False,
                                    m_next = m_head s\<rparr>],
                 m_head := Some (length (heap s))\<rparr>) () \<and>
   (\<exists>t. push_range new_list 1 100 = Returned t () \<and>
        list_size t = Some (Inr 100) \<and>
        accumulate t (begin_it t) end_it 0 = Some (Inr 5050) \<and>
        valid_loop t (begin_it t) = Some (Inr True))"
proof
  show "push_front s v =
     Returned (s\<lparr>heap := heap s @ [\<lparr>m_val = v, m_mtx = False, m_deleted = False,
                                    m_next = m_head s\<rparr>],
                 m_head := Some (length (heap s))\<rparr>) ()"
    by (simp add: push_front_eq list_node_val_ptr_def)
next
  obtain t bs where r: "push_range new_list 1 100 = Returned t ()"
    and p: "path t (m_head t) bs None" and v: "node_vals t bs = rev [1..100]"
    and l: "live t bs"
    using push_range_test by blast
  have "length (node_vals t bs) = 100" unfolding v by simp
  then have len: "length bs = 100" by (simp add: node_vals_def)
  have sum: "sum_list (rev [1..100]) = (5050::int)" by code_simp
  have "list_size t = Some (Inr 100)"
    using list_size_loop_path[OF p, of 0] len by (simp add: list_size_def begin_it_def)
  moreover have "accumulate t (begin_it t) end_it 0 = Some (Inr 5050)"
    using accumulate_path[OF p, of 0] v sum by (simp add: begin_it_def)
  moreover have "valid_loop t (begin_it t) = Some (Inr True)"
    using valid_loop_path[OF p] l by (simp add: begin_it_def)
  ultimately show "\<exists>t. push_range new_list 1 100 = Returned t () \<and>
        list_size t = Some (Inr 100) \<and>
        accumulate t (begin_it t) end_it 0 = Some (Inr 5050) \<and>
        valid_loop t (begin_it t) = Some (Inr True)"
    using r by blast
qed

theorem push_front_spec_witness:
  "push_front new_list (7::int) =
     Returned \<lparr>heap = [\<lparr>m_val = 7, m_mtx = False, m_deleted = False, m_next = None\<rparr>],
               m_head = Some 0, lock_trace = []\<rparr> ()"
  using push_front_spec[of new_list "7::int"] by (simp add: new_list_def)

subsection \<open>\<open>pop_front\<close>\<close>

text \<open>
  Claim C5. On a non-empty list whose head node \<open>a\<close> has a free mutex, \<open>pop_front\<close>
  leaves a state in which the head is the successor of \<open>a\<close> and \<open>a\<close> is marked deleted;
  nothing else in the store changes, so the chain behind \<open>a\<close> is the chain of the new
  head, with the same values and flags. The call returns exactly when \<open>a\<close> was not
  deleted before (it throws otherwise); in a reachable state the head is never
  deleted, so \<open>pop_front\<close> on a reachable non-empty list returns. After the test
  program's pushes of \<open>1..100\<close>, one \<open>pop_front\<close> returns and the front value is
  then 99.
\<close>

theorem pop_front_spec:
  "(m_head s = Some a \<and> a < length (heap s) \<and> \<not> m_mtx (heap s ! a) \<longrightarrow>
      (\<exists>s'. after (pop_front s) = Some s' \<and>
           (pop_front s = Returned s' () \<longleftrightarrow> \<not> m_deleted (heap s ! a)) \<and>
           m_head s' = m_next (heap s ! a) \<and>
           heap s' = (heap s)[a := (heap s ! a)\<lparr>m_deleted := True\<rparr>] \<and>
           (\<forall>as. path s (m_head s) (a # as) None \<longrightarrow>
                 path s' (m_head s') as None \<and> node_vals s' as = node_vals s as \<and>
                 live s' as = live s as))) \<and>
   (reachable s \<and> m_head s \<noteq> None \<longrightarrow> (\<exists>s'. pop_front s = Returned s' ())) \<and>
   (\<exists>t t'. push_range new_list 1 100 = Returned t () \<and> pop_front t = Returned t' () \<and>
        star t' (begin_it t') = Inr 99)"
proof (intro conjI impI)
  assume "m_head s = Some a \<and> a < length (heap s) \<and> \<not> m_mtx (heap s ! a)"
  then have assms: "m_head s = Some a" "a < length (heap s)" "\<not> m_mtx (heap s ! a)"
    by simp_all
  let ?s' = "s\<lparr>heap := (heap s)[a := (heap s ! a)\<lparr>m_deleted := True\<rparr>],
                m_head := m_next (heap s ! a), lock_trace := lock_trace s @ [a]\<rparr>"
  have st: "after (pop_front s) = Some ?s'"
    using assms by (rule pop_front_state)
  have ret: "pop_front s = Returned ?s' () \<longleftrightarrow> \<not> m_deleted (heap s ! a)"
    by (simp add: pop_front_eq[OF assms])
  have chain: "path ?s' (m_head ?s') as None \<and> node_vals ?s' as = node_vals s as \<and>
                 live ?s' as = live s as"
    if "path s (m_head s) (a # as) None" for as
  proof -
    from that have tl: "path s (m_next (heap s ! a)) as None" by simp
    then have fresh: "a \<notin> set as" by (rule path_head_fresh)
    then have "a \<noteq> b" if "b \<in> set as" for b using that by auto
    then have same: "\<forall>b\<in>set as. heap ?s' ! b = heap s ! b" by simp
    have "path ?s' (m_next (heap s ! a)) as None"
      using tl by (rule path_frame) (use same in simp_all)
    moreover have "node_vals ?s' as = node_vals s as"
      unfolding node_vals_def using same by (intro map_cong) simp_all
    moreover have "live ?s' as = live s as"
      unfolding live_def list_all_iff using same by simp
    ultimately show ?thesis by simp
  qed
  show "\<exists>s'. after (pop_front s) = Some s' \<and>
           (pop_front s = Returned s' () \<longleftrightarrow> \<not> m_deleted (heap s ! a)) \<and>
           m_head s' = m_next (heap s ! a) \<and>
           heap s' = (heap s)[a := (heap s ! a)\<lparr>m_deleted := True\<rparr>] \<and>
           (\<forall>as. path s (m_head s) (a # as) None \<longrightarrow>
                 path s' (m_head s') as None \<and> node_vals s' as = node_vals s as \<and>
                 live s' as = live s as)"
    using st ret chain by (intro exI[of _ ?s']) simp
next
  assume "reachable s \<and> m_head s \<noteq> None"
  then show "\<exists>s'. pop_front s = Returned s' ()"
    using reachable_pop_front by blast
next
  obtain t bs where r: "push_range new_list 1 100 = Returned t ()"
    and p: "path t (m_head t) bs None" and v: "node_vals t bs = rev [1..100]"
    and l: "live t bs" and q: "quiescent t"
    using push_range_test by blast
  have "rev [1..100] = (100::int) # 99 # rev [1..98]"
    by (simp add: upto_rec2[of 1 100] upto_rec2[of 1 99])
  with v obtain x y rest where bs: "bs = x # y # rest" and y: "m_val (heap t ! y) = 99"
    by (auto simp: node_vals_def)
  from p bs have hd: "m_head t = Some x" "x < length (heap t)"
    and nx: "m_next (heap t ! x) = Some y" and "y < length (heap t)"
    by simp_all
  have "x \<noteq> y" using path_distinct[OF p] bs by simp
  have "\<not> m_mtx (heap t ! x)" using quiescent_nth[OF q hd(2)] by simp
  moreover have "\<not> m_deleted (heap t ! x)" using l bs by (simp add: live_def)
  ultimately obtain t' where t': "pop_front t = Returned t' ()"
    and "m_head t' = Some y" "heap t' = (heap t)[x := (heap t ! x)\<lparr>m_deleted := True\<rparr>]"
    using pop_front_eq[OF hd] nx by simp
  then have "star t' (begin_it t') = Inr 99"
    using \<open>x \<noteq> y\<close> \<open>y < length (heap t)\<close> y by (simp add: star_def begin_it_def deref_def)
  with r t' show "\<exists>t t'. push_range new_list 1 100 = Returned t () \<and>
      pop_front t = Returned t' () \<and> star t' (begin_it t') = Inr 99"
    by blast
qed

theorem pop_front_spec_witness:
  "\<exists>s'. after (pop_front \<lparr>heap = [list_node_val_ptr (1::int) None, list_node_val_ptr 2 (Some 0)],
                          m_head = Some 1, lock_trace = []\<rparr>) = Some s' \<and>
        m_head s' = Some 0 \<and>
        heap s' = [list_node_val_ptr 1 None, (list_node_val_ptr 2 (Some 0))\<lparr>m_deleted := True\<rparr>]"
  using pop_front_spec[of "\<lparr>heap = [list_node_val_ptr (1::int) None, list_node_val_ptr 2 (Some 0)],
                     m_head = Some 1, lock_trace = []\<rparr>" 1]
  by (auto simp: list_node_val_ptr_def)

subsection \<open>The deletion marker\<close>

text \<open>
  Claim C6. The deleted flag only goes from false to true. Whatever sequence of
  list operations runs from a state (\<open>push_front\<close>, \<open>pop_front\<close>, \<open>insert_after\<close>,
  \<open>erase_after\<close>, \<open>clear\<close>, returning or throwing), a node that was deleted is still
  in the store and still deleted afterwards; the iterator operations are functions
  of the state and change nothing. \<open>mark_as_deleted\<close> returns true exactly when the
  flag was false, and then sets it; on a deleted node it returns false and leaves
  the node as it is.
\<close>

theorem deleted_one_way:
  "(run s cs = Some s' \<and> a < length (heap s) \<and> m_deleted (heap s ! a) \<longrightarrow>
      a < length (heap s') \<and> m_deleted (heap s' ! a)) \<and>
   (fst (mark_as_deleted n) \<longleftrightarrow> \<not> m_deleted n) \<and>
   m_deleted (snd (mark_as_deleted n)) \<and>
   (m_deleted n \<longrightarrow> mark_as_deleted n = (False, n)) \<and>
   (\<not> m_deleted n \<longrightarrow> mark_as_deleted n = (True, n\<lparr>m_deleted := True\<rparr>))"
proof (intro conjI impI)
  assume h: "run s cs = Some s' \<and> a < length (heap s) \<and> m_deleted (heap s ! a)"
  then have "deleted_kept s s'" by (blast intro: deleted_kept_run)
  with h show "a < length (heap s')" "m_deleted (heap s' ! a)"
    by (auto simp: deleted_kept_def)
qed (simp_all add: mark_as_deleted_def)

theorem deleted_one_way_witness:
  "run \<lparr>heap = [(list_node_val (1::int))\<lparr>m_deleted := True\<rparr>], m_head = None, lock_trace = []\<rparr>
       [Push_front 2, Insert_after (Iterator (Some 1)) 3, Erase_after (Iterator (Some 1)),
        Pop_front, Clear] =
     Some \<lparr>heap = [\<lparr>m_val = 1, m_mtx = False, m_deleted = True, m_next = None\<rparr>,
                  \<lparr>m_val = 2, m_mtx = False, m_deleted = True, m_next = None\<rparr>,
                  \<lparr>m_val = 3, m_mtx = False, m_deleted = True, m_next = None\<rparr>],
           m_head = None, lock_trace = [1, 1, 2, 1]\<rparr> \<and>
   m_deleted (\<lparr>m_val = (1::int), m_mtx = False, m_deleted = True, m_next = None\<rparr>)"
  using deleted_one_way[of
      "\<lparr>heap = [(list_node_val (1::int))\<lparr>m_deleted := True\<rparr>], m_head = None, lock_trace = []\<rparr>"
      "[Push_front 2, Insert_after (Iterator (Some 1)) 3, Erase_after (Iterator (Some 1)),
        Pop_front, Clear]"
      "\<lparr>heap = [\<lparr>m_val = 1, m_mtx = False, m_deleted = True, m_next = None\<rparr>,
                  \<lparr>m_val = 2, m_mtx = False, m_deleted = True, m_next = None\<rparr>,
                  \<lparr>m_val = 3, m_mtx = False, m_deleted = True, m_next = None\<rparr>],
           m_head = None, lock_trace = [1, 1, 2, 1]\<rparr>" 0]
  by (simp add: push_front_eq clear_eq insert_after_eq erase_after_eq[where d = 2]
        pop_front_eq[where a = 1] list_node_val_def list_node_val_ptr_def)

subsection \<open>Iterator validity\<close>

text \<open>
  Claim C7. For an iterator that is the end or refers to a node of the store,
  \<open>is_valid\<close> (and the conversion to \<open>bool\<close>) is true exactly when the reference is
  not empty and the node's deleted flag is false. When \<open>erase_after\<close> returns true it
  has removed the successor \<open>x\<close> of its position: an iterator to \<open>x\<close> is then invalid,
  and dereferencing it yields the value \<open>x\<close> had, without fault.
\<close>

theorem is_valid_spec:
  "(ptr_ok s (m_node_ptr it) \<longrightarrow>
      is_valid s it =
        Inr (case m_node_ptr it of None \<Rightarrow> False | Some a \<Rightarrow> \<not> m_deleted (heap s ! a))) \<and>
   operator_bool s it = is_valid s it \<and>
   (erase_after s pos = Returned s' True \<longrightarrow>
      (\<exists>p x. m_node_ptr pos = Some p \<and> m_next (heap s ! p) = Some x \<and>
             m_next (heap s' ! p) = m_next (heap s ! x) \<and>
             is_valid s' (Iterator (Some x)) = Inr False \<and>
             star s' (Iterator (Some x)) = Inr (m_val (heap s ! x)) \<and>
             star s (Iterator (Some x)) = Inr (m_val (heap s ! x))))"
proof (intro conjI impI)
  assume "ptr_ok s (m_node_ptr it)"
  then show "is_valid s it =
        Inr (case m_node_ptr it of None \<Rightarrow> False | Some a \<Rightarrow> \<not> m_deleted (heap s ! a))"
    by (simp add: is_valid_def ptr_ok_def is_deleted_def split: option.splits)
next
  show "operator_bool s it = is_valid s it" by (simp add: operator_bool_def)
next
  assume "erase_after s pos = Returned s' True"
  then obtain p d where pos: "m_node_ptr pos = Some p" and p: "p < length (heap s)"
    and nx: "m_next (heap s ! p) = Some d" and d: "d < length (heap s)" and ne: "d \<noteq> p"
    and s': "s' = s\<lparr>heap := (heap s)[p := (heap s ! p)\<lparr>m_next := m_next (heap s ! d)\<rparr>,
                                   d := (heap s ! d)\<lparr>m_deleted := True\<rparr>],
                  lock_trace := lock_trace s @ [p, d]\<rparr>"
    using erase_after_TrueD by blast
  have "m_next (heap s' ! p) = m_next (heap s ! d)"
    using p d ne by (simp add: s')
  moreover have "is_valid s' (Iterator (Some d)) = Inr False"
    using d by (simp add: s' is_valid_def is_deleted_def)
  moreover have "star s' (Iterator (Some d)) = Inr (m_val (heap s ! d))"
    using d by (simp add: s' star_def deref_def)
  moreover have "star s (Iterator (Some d)) = Inr (m_val (heap s ! d))"
    using d by (simp add: star_def deref_def)
  ultimately show "\<exists>p x. m_node_ptr pos = Some p \<and> m_next (heap s ! p) = Some x \<and>
             m_next (heap s' ! p) = m_next (heap s ! x) \<and>
             is_valid s' (Iterator (Some x)) = Inr False \<and>
             star s' (Iterator (Some x)) = Inr (m_val (heap s ! x)) \<and>
             star s (Iterator (Some x)) = Inr (m_val (heap s ! x))"
    using pos nx by blast
qed

theorem is_valid_spec_witness:
  "erase_after \<lparr>heap = [list_node_val_ptr (1::int) None, list_node_val_ptr 2 (Some 0)],
                m_head = Some 1, lock_trace = []\<rparr> (Iterator (Some 1)) =
     Returned \<lparr>heap = [(list_node_val_ptr 1 None)\<lparr>m_deleted := True\<rparr>, list_node_val_ptr 2 None],
               m_head = Some 1, lock_trace = [1, 0]\<rparr> True \<and>
   is_valid \<lparr>heap = [(list_node_val_ptr (1::int) None)\<lparr>m_deleted := True\<rparr>, list_node_val_ptr 2 None],
               m_head = Some 1, lock_trace = [1, 0]\<rparr> (Iterator (Some 0)) = Inr False \<and>
   star \<lparr>heap = [(list_node_val_ptr (1::int) None)\<lparr>m_deleted := True\<rparr>, list_node_val_ptr 2 None],
               m_head = Some 1, lock_trace = [1, 0]\<rparr> (Iterator (Some 0)) = Inr 1"
  using is_valid_spec[of
     "\<lparr>heap = [list_node_val_ptr (1::int) None, list_node_val_ptr 2 (Some 0)],
                m_head = Some 1, lock_trace = []\<rparr>" "Iterator (Some 0)" "Iterator (Some 1)"
     "\<lparr>heap = [(list_node_val_ptr 1 None)\<lparr>m_deleted := True\<rparr>, list_node_val_ptr 2 None],
               m_head = Some 1, lock_trace = [1, 0]\<rparr>"]
  by (simp add: erase_after_cases list_node_val_ptr_def ptr_ok_def)

subsection \<open>Lock acquisitions\<close>

text \<open>
  Claim C8 says that none of \<open>push_front\<close>, \<open>pop_front\<close>, \<open>clear\<close> and \<open>empty\<close> acquires
  a node's lock. \<open>pop_front\<close> does: on a one-element list it acquires the lock of the
  node it detached.
\<close>

theorem pop_front_locks_counterexample:
  "pop_front \<lparr>heap = [list_node_val (1::int)], m_head = Some 0, lock_trace = []\<rparr> =
     Returned \<lparr>heap = [(list_node_val 1)\<lparr>m_deleted := True\<rparr>], m_head = None,
               lock_trace = [0]\<rparr> () \<and>
   lock_trace \<lparr>heap = [(list_node_val (1::int))\<lparr>m_deleted := True\<rparr>], m_head = None,
               lock_trace = [0]\<rparr> \<noteq>
   lock_trace \<lparr>heap = [list_node_val (1::int)], m_head = Some 0, lock_trace = []\<rparr>"
  by (simp add: pop_front_eq[of _ 0] list_node_val_def)

text \<open>
  Claim C8, amended. \<open>push_front\<close> and \<open>clear\<close> acquire no lock: they leave the
  history of acquisitions as it was. \<open>empty\<close> is a \<^verbatim>\<open>const\<close> member that reads the
  head only: its result does not depend on the store or on the history, and it has
  no state to change. \<open>pop_front\<close> on a non-empty list acquires exactly one lock,
  that of the node that was the head.
\<close>

theorem lock_acquisitions:
  "(\<exists>s'. push_front s v = Returned s' () \<and> lock_trace s' = lock_trace s) \<and>
   lock_trace (clear s) = lock_trace s \<and>
   empty_cfl (s\<lparr>heap := h, lock_trace := t\<rparr>) = empty_cfl s \<and>
   (m_head s = Some a \<and> a < length (heap s) \<and> \<not> m_mtx (heap s ! a) \<longrightarrow>
      (\<exists>s'. after (pop_front s) = Some s' \<and> lock_trace s' = lock_trace s @ [a]))"
  by (simp add: push_front_eq clear_eq empty_cfl_def pop_front_state)

theorem lock_acquisitions_witness:
  "\<exists>s'. after (pop_front \<lparr>heap = [list_node_val (1::int)], m_head = Some 0,
                          lock_trace = []\<rparr>) = Some s' \<and> lock_trace s' = [0]"
  using lock_acquisitions[where s = "\<lparr>heap = [list_node_val (1::int)], m_head = Some 0,
                          lock_trace = []\<rparr>" and a = 0]
  by (simp add: list_node_val_def)

subsection \<open>\<open>insert_after\<close> at the end position\<close>

text \<open>
  Claim C9. \<open>insert_after\<close> at the end position does not return false: it dereferences
  the empty pointer, where \<open>erase_after\<close> at the end position returns false and leaves
  the state alone. In a quiescent state, with a position that is the end or refers
  to a node of the store, \<open>insert_after\<close> returns exactly when the position is not
  the end.
\<close>

theorem insert_after_end:
  "insert_after s end_it v = Undefined Null_dereference \<and>
   erase_after s end_it = Returned s False \<and>
   (quiescent s \<and> ptr_ok s (m_node_ptr pos) \<longrightarrow>
      ((\<exists>s' b. insert_after s pos v = Returned s' b) \<longleftrightarrow> pos \<noteq> end_it))"
proof (intro conjI impI)
  show "insert_after s end_it v = Undefined Null_dereference"
    by (simp add: insert_after_def end_it_def make_shared_def deref_def)
  show "erase_after s end_it = Returned s False"
    by (simp add: erase_after_def end_it_def)
  assume a: "quiescent s \<and> ptr_ok s (m_node_ptr pos)"
  show "(\<exists>s' b. insert_after s pos v = Returned s' b) \<longleftrightarrow> pos \<noteq> end_it"
  proof (cases "m_node_ptr pos")
    case None
    then have "pos = end_it" by (cases pos) (simp add: end_it_def)
    then show ?thesis
      by (simp add: insert_after_def end_it_def make_shared_def deref_def)
  next
    case (Some p)
    then have pos: "pos = Iterator (Some p)" by (cases pos) simp
    with a have p: "p < length (heap s)" by (simp add: ptr_ok_def)
    with a have "\<not> m_mtx (heap s ! p)" using quiescent_nth by blast
    from insert_after_eq[OF p this, of v] show ?thesis
      by (auto simp: pos end_it_def)
  qed
qed

theorem insert_after_end_witness:
  "\<exists>s' b. insert_after \<lparr>heap = [list_node_val (1::int)], m_head = Some 0, lock_trace = []\<rparr>
             (Iterator (Some 0)) 2 = Returned s' b"
  using insert_after_end[of "\<lparr>heap = [list_node_val (1::int)], m_head = Some 0, lock_trace = []\<rparr>"
      2 "Iterator (Some 0)"]
  by (simp add: quiescent_def ptr_ok_def list_node_val_def end_it_def)

subsection \<open>\<open>clear\<close>\<close>

text \<open>
  Claim C10. \<open>clear\<close> writes the head reference and nothing else: the store, and with
  it every node's \<open>deleted\<close> flag, value and successor, is unchanged, and no lock is
  taken. The list is empty afterwards, yet an iterator reports the same validity
  and dereferences to the same value as before; in particular an iterator to a node
  that was not deleted is still valid. In a reachable state no node of the list's
  chain is deleted, so every one of them is valid, and readable, after \<open>clear\<close>.
\<close>

theorem clear_frame:
  "heap (clear s) = heap s \<and> lock_trace (clear s) = lock_trace s \<and>
   m_head (clear s) = None \<and> empty_cfl (clear s) \<and>
   (path (clear s) (m_head (clear s)) as None \<longleftrightarrow> as = []) \<and>
   (\<forall>a. m_deleted (heap (clear s) ! a) = m_deleted (heap s ! a)) \<and>
   is_valid (clear s) it = is_valid s it \<and> star (clear s) it = star s it \<and>
   (\<forall>a. a < length (heap s) \<and> \<not> m_deleted (heap s ! a) \<longrightarrow>
        is_valid (clear s) (Iterator (Some a)) = Inr True \<and>
        star (clear s) (Iterator (Some a)) = Inr (m_val (heap s ! a))) \<and>
   (reachable s \<and> path s (m_head s) bs None \<longrightarrow>
      live (clear s) bs \<and>
      (\<forall>a\<in>set bs. is_valid (clear s) (Iterator (Some a)) = Inr True \<and>
                  star (clear s) (Iterator (Some a)) = Inr (m_val (heap s ! a))))"
proof -
  have nil: "path (clear s) None as None \<longleftrightarrow> as = []"
    by (cases as) simp_all
  have chain: "live (clear s) bs \<and>
      (\<forall>a\<in>set bs. is_valid (clear s) (Iterator (Some a)) = Inr True \<and>
                  star (clear s) (Iterator (Some a)) = Inr (m_val (heap s ! a)))"
    if "reachable s \<and> path s (m_head s) bs None"
  proof -
    from that have l: "live s bs" using reachable_chain_live by blast
    from that have rng: "\<forall>a\<in>set bs. a < length (heap s)" using path_in_range by blast
    from l rng show ?thesis
      by (simp add: clear_eq live_def list_all_iff is_valid_def star_def deref_def
            is_deleted_def)
  qed
  from nil have "heap (clear s) = heap s \<and> lock_trace (clear s) = lock_trace s \<and>
   m_head (clear s) = None \<and> empty_cfl (clear s) \<and>
   (path (clear s) (m_head (clear s)) as None \<longleftrightarrow> as = []) \<and>
   (\<forall>a. m_deleted (heap (clear s) ! a) = m_deleted (heap s ! a)) \<and>
   is_valid (clear s) it = is_valid s it \<and> star (clear s) it = star s it \<and>
   (\<forall>a. a < length (heap s) \<and> \<not> m_deleted (heap s ! a) \<longrightarrow>
        is_valid (clear s) (Iterator (Some a)) = Inr True \<and>
        star (clear s) (Iterator (Some a)) = Inr (m_val (heap s ! a)))"
    by (simp add: clear_eq empty_cfl_def is_valid_def star_def deref_def is_deleted_def
          split: option.splits)
  with chain show ?thesis by blast
qed

theorem clear_frame_witness:
  "is_valid (clear \<lparr>heap = [list_node_val (5::int)], m_head = Some 0, lock_trace = []\<rparr>)
      (Iterator (Some 0)) = Inr True \<and>
   star (clear \<lparr>heap = [list_node_val (5::int)], m_head = Some 0, lock_trace = []\<rparr>)
      (Iterator (Some 0)) = Inr 5 \<and>
   m_head (clear \<lparr>heap = [list_node_val (5::int)], m_head = Some 0, lock_trace = []\<rparr>) = None"
  using clear_frame[where s = "\<lparr>heap = [list_node_val (5::int)], m_head = Some 0, lock_trace = []\<rparr>"
      and as = "[]" and it = "Iterator (Some 0)"]
  by (simp add: list_node_val_def is_valid_def star_def deref_def is_deleted_def)

end
